theory Spec2Isabelle
  imports Complex_Main
begin

section \<open>Python floats\<close>

text \<open>
  Confidence values and similarity scores are Python floats, that is IEEE 754 binary64
  numbers. A finite float is represented by the rational number that is its exact value;
  every arithmetic operation computes the exact rational result and rounds it to the
  nearest binary64 number, ties to the even significand (\<open>to_double\<close>). The
  significand has 53 bits; below \<open>2 powi (- 1022)\<close> the spacing stays at
  \<open>2 powi (- 1074)\<close> (gradual underflow). Infinities and NaN are not represented: the
  operations below divide by 100 and multiply by 0.85, so they never leave the finite
  range.
\<close>

text \<open>Rounding a rational to an integer, ties to even.\<close>

definition round_half_even :: "rat \<Rightarrow> int" where
  "round_half_even x =
     (let f = \<lfloor>x\<rfloor>; d = x - of_int f
      in if d < 1 / 2 then f else if 1 / 2 < d then f + 1 else if even f then f else f + 1)"

text \<open>
  \<open>ilog2 x\<close> is the binary exponent of a positive rational: the integer \<open>e\<close> with
  \<open>2 powi e \<le> x < 2 powi (e + 1)\<close>. \<open>ilog2n\<close> is the same on positive naturals.
\<close>

fun ilog2n :: "nat \<Rightarrow> nat" where
  "ilog2n n = (if n < 2 then 0 else Suc (ilog2n (n div 2)))"

declare ilog2n.simps [simp del]

definition ilog2 :: "rat \<Rightarrow> int" where
  "ilog2 x = (if 1 \<le> x then int (ilog2n (nat \<lfloor>x\<rfloor>))
              else - int (Suc (ilog2n (nat (\<lceil>1 / x\<rceil> - 1)))))"

text \<open>
  The exponent of the binade a positive value is rounded in (never below the smallest
  normal exponent), the spacing of the floats there, and the rounding itself.
\<close>

definition binade :: "rat \<Rightarrow> int" where
  "binade x = max (ilog2 x) (- 1022)"

definition ulp :: "rat \<Rightarrow> rat" where
  "ulp x = 2 powi (binade x - 52)"

definition to_double :: "rat \<Rightarrow> rat" where
  "to_double x =
     (if x = 0 then 0
      else if 0 < x then of_int (round_half_even (x / ulp x)) * ulp x
      else - (of_int (round_half_even (- x / ulp (- x))) * ulp (- x)))"

text \<open>Float division and multiplication: the exact result, rounded once.\<close>

definition fdiv :: "rat \<Rightarrow> rat \<Rightarrow> rat" where
  "fdiv a b = to_double (a / b)"

definition fmul :: "rat \<Rightarrow> rat \<Rightarrow> rat" where
  "fmul a b = to_double (a * b)"

text \<open>
  \<open>round(x, ndigits)\<close> on a float: CPython rounds the exact value of \<open>x\<close> to
  \<open>ndigits\<close> decimals, ties to even, and returns the float nearest to that decimal.
\<close>

definition py_round :: "rat \<Rightarrow> nat \<Rightarrow> rat" where
  "py_round x ndigits = to_double (of_int (round_half_even (x * 10 ^ ndigits)) / 10 ^ ndigits)"

section \<open>scorer.py: the confidence model\<close>

text \<open>
  A decimal literal denotes the float nearest to it: \<open>0.95\<close> and \<open>0.85\<close> of the
  source, and \<open>0.72\<close>, the confidence of the lowest accepted similarity score.
  (\<open>100.0\<close>, \<open>85\<close> and \<open>0.0\<close> are floats themselves.)
\<close>

definition lit_0_95 :: rat where
  "lit_0_95 = to_double (95 / 100)"

definition lit_0_85 :: rat where
  "lit_0_85 = to_double (85 / 100)"

definition lit_0_72 :: rat where
  "lit_0_72 = to_double (72 / 100)"

text \<open>\<open>ConfidenceScorer.calculate(method, match_quality)\<close>.\<close>

definition calculate :: "string \<Rightarrow> rat \<Rightarrow> rat" where
  "calculate method match_quality =
     (if method = ''regex'' then lit_0_95
      else if method = ''fuzzy'' then
        (let normalized_score = fdiv match_quality 100
         in py_round (fmul normalized_score lit_0_85) 2)
      else 0)"

section \<open>Python strings\<close>

text \<open>
  A Python \<open>str\<close> is a sequence of Unicode code points, and is modelled by the list of
  these code points (\<open>pystr\<close>); \<open>ustr\<close> gives the \<open>str\<close> of an ASCII literal. The
  character classes are those of the Unicode Character Database 14.0.0 as CPython 3.11
  has them, each a table of ranges of code points:
  \<^item> \<open>is_space\<close> is \<open>str.isspace\<close> of one character, which is also the class \<open>\s\<close> of a
    regular expression on a \<open>str\<close>;
  \<^item> \<open>is_decimal\<close> is the class \<open>\d\<close>: the decimal digits of every script;
  \<^item> \<open>is_digit\<close> is \<open>str.isdigit\<close> of one character: the decimal digits and the other
    digits, such as the superscript ones.
\<close>

type_synonym pystr = "int list"

definition ustr :: "string \<Rightarrow> pystr" where
  "ustr s = map of_char s"

fun in_ranges :: "int \<Rightarrow> (int \<times> int) list \<Rightarrow> bool" where
  "in_ranges c [] = False"
| "in_ranges c ((lo, hi) # rs) = (if lo \<le> c \<and> c \<le> hi then True else in_ranges c rs)"

definition space_ranges :: "(int \<times> int) list" where
  "space_ranges =
     [(9, 13), (28, 32), (133, 133), (160, 160), (5760, 5760), (8192, 8202), (8232, 8233),
      (8239, 8239), (8287, 8287), (12288, 12288)]"

definition decimal_ranges :: "(int \<times> int) list" where
  "decimal_ranges =
     [(48, 57), (1632, 1641), (1776, 1785), (1984, 1993), (2406, 2415), (2534, 2543),
      (2662, 2671), (2790, 2799), (2918, 2927), (3046, 3055), (3174, 3183), (3302, 3311),
      (3430, 3439), (3558, 3567), (3664, 3673), (3792, 3801), (3872, 3881), (4160, 4169),
      (4240, 4249), (6112, 6121), (6160, 6169), (6470, 6479), (6608, 6617), (6784, 6793),
      (6800, 6809), (6992, 7001), (7088, 7097), (7232, 7241), (7248, 7257), (42528, 42537),
      (43216, 43225), (43264, 43273), (43472, 43481), (43504, 43513), (43600, 43609),
      (44016, 44025), (65296, 65305), (66720, 66729), (68912, 68921), (69734, 69743),
      (69872, 69881), (69942, 69951), (70096, 70105), (70384, 70393), (70736, 70745),
      (70864, 70873), (71248, 71257), (71360, 71369), (71472, 71481), (71904, 71913),
      (72016, 72025), (72784, 72793), (73040, 73049), (73120, 73129), (92768, 92777),
      (92864, 92873), (93008, 93017), (120782, 120831), (123200, 123209), (123632, 123641),
      (125264, 125273), (130032, 130041)]"

definition digit_ranges :: "(int \<times> int) list" where
  "digit_ranges =
     [(48, 57), (178, 179), (185, 185), (1632, 1641), (1776, 1785), (1984, 1993), (2406, 2415),
      (2534, 2543), (2662, 2671), (2790, 2799), (2918, 2927), (3046, 3055), (3174, 3183),
      (3302, 3311), (3430, 3439), (3558, 3567), (3664, 3673), (3792, 3801), (3872, 3881),
      (4160, 4169), (4240, 4249), (4969, 4977), (6112, 6121), (6160, 6169), (6470, 6479),
      (6608, 6618), (6784, 6793), (6800, 6809), (6992, 7001), (7088, 7097), (7232, 7241),
      (7248, 7257), (8304, 8304), (8308, 8313), (8320, 8329), (9312, 9320), (9332, 9340),
      (9352, 9360), (9450, 9450), (9461, 9469), (9471, 9471), (10102, 10110), (10112, 10120),
      (10122, 10130), (42528, 42537), (43216, 43225), (43264, 43273), (43472, 43481),
      (43504, 43513), (43600, 43609), (44016, 44025), (65296, 65305), (66720, 66729),
      (68160, 68163), (68912, 68921), (69216, 69224), (69714, 69722), (69734, 69743),
      (69872, 69881), (69942, 69951), (70096, 70105), (70384, 70393), (70736, 70745),
      (70864, 70873), (71248, 71257), (71360, 71369), (71472, 71481), (71904, 71913),
      (72016, 72025), (72784, 72793), (73040, 73049), (73120, 73129), (92768, 92777),
      (92864, 92873), (93008, 93017), (120782, 120831), (123200, 123209), (123632, 123641),
      (125264, 125273), (127232, 127242), (130032, 130041)]"

definition is_space :: "int \<Rightarrow> bool" where
  "is_space c = in_ranges c space_ranges"

definition is_decimal :: "int \<Rightarrow> bool" where
  "is_decimal c = in_ranges c decimal_ranges"

definition is_digit :: "int \<Rightarrow> bool" where
  "is_digit c = in_ranges c digit_ranges"

text \<open>
  \<open>str.lower\<close> is modelled on the letters \<open>A\<close> to \<open>Z\<close>, and leaves every other character
  as it is. The engine lowers the keyword and the line only to pass them to the
  similarity scorer, which is a parameter of the model; no other use is made of them.
\<close>

definition lower_char :: "int \<Rightarrow> int" where
  "lower_char c = (if 65 \<le> c \<and> c \<le> 90 then c + 32 else c)"

definition lower :: "pystr \<Rightarrow> pystr" where
  "lower s = map lower_char s"

definition strip :: "pystr \<Rightarrow> pystr" where
  "strip s = rev (dropWhile is_space (rev (dropWhile is_space s)))"

text \<open>
  \<open>s.split(sep)\<close> for a separator of one character: never the empty list. The line
  feed of \<open>text.split("\n")\<close> is the code point 10.
\<close>

fun split :: "int \<Rightarrow> pystr \<Rightarrow> pystr list" where
  "split sep [] = [[]]"
| "split sep (c # cs) =
     (if c = sep then [] # split sep cs
      else (case split sep cs of [] \<Rightarrow> [[c]] | w # ws \<Rightarrow> (c # w) # ws))"

section \<open>The numeric-token pattern of the approximate matcher\<close>

text \<open>
  \<open>re.findall(r"(?:Rs\.|...)?\s?([\d,]+\.?\d*)", line)\<close>, where the second alternative of
  the currency marker is the three characters U+00E2, U+201A, U+00B9 that stand in the
  source file. The comma is the code point 44 and the full stop 46. The matcher tries, in
  the order of a backtracking engine: each marker alternative that matches, then no
  marker; after each, one whitespace character if there is one, then none; then the
  group, whose parts are greedy and never need to give anything back since whatever
  follows them may be empty. \<open>match_at\<close> returns the text of the group and the input left
  after the match.
\<close>

definition currency_markers :: "pystr list" where
  "currency_markers = [ustr ''Rs.'', [0xE2, 0x201A, 0xB9]]"

definition is_digit_or_comma :: "int \<Rightarrow> bool" where
  "is_digit_or_comma c = (is_decimal c \<or> c = 44)"

definition strip_prefix :: "pystr \<Rightarrow> pystr \<Rightarrow> pystr option" where
  "strip_prefix p s = (if take (length p) s = p then Some (drop (length p) s) else None)"

definition marker_alts :: "pystr \<Rightarrow> pystr list" where
  "marker_alts s = List.map_filter (\<lambda>p. strip_prefix p s) currency_markers @ [s]"

definition ws_alts :: "pystr \<Rightarrow> pystr list" where
  "ws_alts r = (case r of [] \<Rightarrow> [r] | c # cs \<Rightarrow> if is_space c then [cs, r] else [r])"

definition num_group :: "pystr \<Rightarrow> (pystr \<times> pystr) option" where
  "num_group r =
     (let a = takeWhile is_digit_or_comma r; r1 = dropWhile is_digit_or_comma r
      in if a = [] then None
         else (let dot = (case r1 of [] \<Rightarrow> [] | c # t \<Rightarrow> if c = 46 then [c] else []);
                   r2 = drop (length dot) r1
               in Some (a @ dot @ takeWhile is_decimal r2, dropWhile is_decimal r2)))"

definition match_at :: "pystr \<Rightarrow> (pystr \<times> pystr) option" where
  "match_at s =
     (case List.map_filter num_group (concat (map ws_alts (marker_alts s))) of
        [] \<Rightarrow> None
      | m # _ \<Rightarrow> Some m)"

text \<open>
  \<open>findall\<close> scans from the left: where the pattern matches it keeps the group and goes on
  after the match, elsewhere it moves on by one character. A match is never empty, so
  the scan ends.
\<close>

function findall_numbers :: "pystr \<Rightarrow> pystr list" where
  "findall_numbers [] = []"
| "findall_numbers (c # cs) =
     (case match_at (c # cs) of
        Some (g, rest) \<Rightarrow> g # findall_numbers rest
      | None \<Rightarrow> findall_numbers cs)"
  by pat_completeness auto

lemma in_set_map_filter: "x \<in> set (List.map_filter f xs) \<longleftrightarrow> (\<exists>y. y \<in> set xs \<and> f y = Some x)"
  by (induction xs) (auto split: option.splits)

lemma strip_prefix_length: "strip_prefix p s = Some r \<Longrightarrow> length r \<le> length s"
  by (auto simp: strip_prefix_def split: if_splits)

lemma marker_alts_length: "r \<in> set (marker_alts s) \<Longrightarrow> length r \<le> length s"
  by (auto simp: marker_alts_def in_set_map_filter dest: strip_prefix_length)

lemma ws_alts_length: "r' \<in> set (ws_alts r) \<Longrightarrow> length r' \<le> length r"
  by (auto simp: ws_alts_def split: list.splits if_splits)

lemma num_group_length: "num_group r = Some (g, rest) \<Longrightarrow> length rest < length r"
proof -
  assume a: "num_group r = Some (g, rest)"
  let ?r1 = "dropWhile is_digit_or_comma r"
  from a have ne: "takeWhile is_digit_or_comma r \<noteq> []"
    by (auto simp: num_group_def Let_def split: if_splits)
  have "length (takeWhile is_digit_or_comma r) + length ?r1 = length r"
    by (metis length_append takeWhile_dropWhile_id)
  with ne have l1: "length ?r1 < length r" by (cases "takeWhile is_digit_or_comma r") auto
  from a ne obtain k where "rest = dropWhile is_decimal (drop k ?r1)"
    by (auto simp: num_group_def Let_def split: if_splits)
  then have "length rest \<le> length ?r1"
    by (metis length_drop diff_le_self length_dropWhile_le order_trans)
  with l1 show ?thesis by simp
qed

lemma match_at_length: "match_at s = Some (g, rest) \<Longrightarrow> length rest < length s"
proof -
  assume "match_at s = Some (g, rest)"
  then have "(g, rest) \<in> set (List.map_filter num_group (concat (map ws_alts (marker_alts s))))"
    by (auto simp: match_at_def split: list.splits)
  then obtain r r' where "r \<in> set (marker_alts s)" "r' \<in> set (ws_alts r)"
    "num_group r' = Some (g, rest)"
    by (auto simp: in_set_map_filter)
  then show ?thesis
    using marker_alts_length ws_alts_length num_group_length
    by (meson le_trans less_le_trans)
qed

termination findall_numbers
proof (relation "measure length")
  show "wf (measure length)" by simp
next
  fix c cs x2 g rest
  assume "match_at (c # cs) = Some x2" "(g, rest) = x2"
  then have "match_at (c # cs) = Some (g, rest)" by simp
  then have "length rest < length (c # cs)" by (rule match_at_length)
  then show "(rest, c # cs) \<in> measure length" by simp
next
  fix c cs
  assume "match_at (c # cs) = None"
  then show "(cs, c # cs) \<in> measure length" by simp
qed

section \<open>extractor.py: the field extraction engine\<close>

text \<open>
  An extraction result is the dictionary with the keys \<open>value\<close>, \<open>confidence\<close> and
  \<open>method\<close>. The method is one of the strings \<open>none\<close>, \<open>regex\<close> and
  \<open>fuzzy (score: s)\<close>, where \<open>s\<close> is the similarity score printed as a float; the three
  forms are the constructors of \<open>method_tag\<close>, the last one carrying the score.
\<close>

datatype method_tag = MNone | MRegex | MFuzzy rat

record extraction =
  value_r :: "pystr option"
  confidence :: rat
  method_r :: method_tag

text \<open>A field's configuration: the dictionary with the keys \<open>regex\<close> and \<open>keywords\<close>.\<close>

record config =
  regex :: pystr
  keywords_c :: "pystr list"

text \<open>The exceptions the engine can raise.\<close>

datatype py_error =
    IndexError      \<comment> \<open>\<open>groups()[-1]\<close> on a match without groups\<close>
  | AttributeError  \<comment> \<open>\<open>.strip()\<close> on the \<open>None\<close> of a group that took no part in the match\<close>
  | ReError         \<comment> \<open>\<open>re.error\<close>: the pattern does not compile\<close>

text \<open>
  The two library functions are parameters of the model.
  \<^item> \<open>re_search pattern text\<close> is \<open>re.search(pattern, text, re.IGNORECASE | re.MULTILINE)\<close>:
    \<open>Inl ReError\<close> when the pattern does not compile, \<open>Inr None\<close> when nothing matches,
    \<open>Inr (Some gs)\<close> for a match whose \<open>groups()\<close> is \<open>gs\<close>, with \<open>None\<close> for a group
    that took no part in the match.
  \<^item> \<open>partial_ratio s1 s2\<close> is \<open>rapidfuzz.fuzz.partial_ratio\<close>, a float.
\<close>

type_synonym re_search = "pystr \<Rightarrow> pystr \<Rightarrow> py_error + pystr option list option"

type_synonym partial_ratio = "pystr \<Rightarrow> pystr \<Rightarrow> rat"

subsection \<open>\<open>_fuzzy_search\<close>\<close>

text \<open>The three variables the scan updates.\<close>

record best =
  best_candidate :: "pystr option"
  best_score :: rat
  best_method_score :: rat

definition best_init :: best where
  "best_init = \<lparr>best_candidate = None, best_score = 0, best_method_score = 0\<rparr>"

text \<open>The numbers of a line that pass the filter: not blank, and with a digit.\<close>

definition valid_values :: "pystr \<Rightarrow> pystr list" where
  "valid_values line = filter (\<lambda>n. strip n \<noteq> [] \<and> list_ex is_digit n) (findall_numbers line)"

text \<open>The body of the inner loop, for one keyword on one line.\<close>

definition fuzzy_keyword :: "partial_ratio \<Rightarrow> pystr \<Rightarrow> best \<Rightarrow> pystr \<Rightarrow> best" where
  "fuzzy_keyword partial_ratio line b keyword =
     (let score = partial_ratio (lower keyword) (lower line)
      in if 85 \<le> score then
           (if valid_values line \<noteq> [] then
              (let confidence = calculate ''fuzzy'' score
               in if best_score b < confidence then
                    b\<lparr>best_score := confidence,
                      best_candidate := Some (last (valid_values line)),
                      best_method_score := score\<rparr>
                  else b)
            else b)
         else b)"

text \<open>The body of the outer loop: blank lines are skipped.\<close>

definition fuzzy_line :: "partial_ratio \<Rightarrow> pystr list \<Rightarrow> best \<Rightarrow> pystr \<Rightarrow> best" where
  "fuzzy_line partial_ratio kws b line =
     (if strip line = [] then b else foldl (fuzzy_keyword partial_ratio line) b kws)"

text \<open>\<open>if best_candidate:\<close> holds of a string that is not empty.\<close>

definition fuzzy_search :: "partial_ratio \<Rightarrow> pystr list \<Rightarrow> pystr list \<Rightarrow> extraction option" where
  "fuzzy_search partial_ratio lines kws =
     (let b = foldl (fuzzy_line partial_ratio kws) best_init lines
      in case best_candidate b of
           None \<Rightarrow> None
         | Some v \<Rightarrow>
             if v = [] then None
             else Some \<lparr>value_r = Some v, confidence = best_score b,
                        method_r = MFuzzy (best_method_score b)\<rparr>)"

subsection \<open>\<open>extract\<close>\<close>

definition default_result :: extraction where
  "default_result = \<lparr>value_r = None, confidence = 0, method_r = MNone\<rparr>"

text \<open>\<open>not extracted_data["value"]\<close>: the value is \<open>None\<close> or the empty pystr.\<close>

definition no_value :: "extraction \<Rightarrow> bool" where
  "no_value d = (case value_r d of None \<Rightarrow> True | Some v \<Rightarrow> v = [])"

text \<open>
  Strategy 1, the regular expression: the default when nothing matches, else the last
  group, stripped, with the confidence of \<open>calculate("regex")\<close> (whose second argument
  defaults to \<open>100.0\<close>).
\<close>

definition regex_attempt :: "re_search \<Rightarrow> pystr \<Rightarrow> config \<Rightarrow> py_error + extraction" where
  "regex_attempt re_search text cfg =
     (case re_search (regex cfg) text of
        Inl e \<Rightarrow> Inl e
      | Inr None \<Rightarrow> Inr default_result
      | Inr (Some groups) \<Rightarrow>
          (if groups = [] then Inl IndexError
           else (case last groups of
                   None \<Rightarrow> Inl AttributeError
                 | Some g \<Rightarrow>
                     Inr \<lparr>value_r = Some (strip g), confidence = calculate ''regex'' 100,
                          method_r = MRegex\<rparr>)))"

text \<open>The body of the loop over the fields: strategy 1, then the fuzzy fallback.\<close>

definition extract_field ::
  "re_search \<Rightarrow> partial_ratio \<Rightarrow> pystr \<Rightarrow> pystr list \<Rightarrow> config \<Rightarrow> py_error + extraction" where
  "extract_field re_search partial_ratio text lines cfg =
     (case regex_attempt re_search text cfg of
        Inl e \<Rightarrow> Inl e
      | Inr extracted_data \<Rightarrow>
          (if no_value extracted_data then
             (case fuzzy_search partial_ratio lines (keywords_c cfg) of
                Some fuzzy_res \<Rightarrow> Inr fuzzy_res
              | None \<Rightarrow> Inr extracted_data)
           else Inr extracted_data))"

text \<open>
  The loop over \<open>self.patterns.items()\<close>: the registry is the list of its items in the
  order of the dictionary, \<open>results\<close> the dictionary being filled. An exception ends
  the loop, and no dictionary is returned.
\<close>

fun extract_loop ::
  "re_search \<Rightarrow> partial_ratio \<Rightarrow> pystr \<Rightarrow> pystr list \<Rightarrow> (pystr \<rightharpoonup> extraction) \<Rightarrow>
   (pystr \<times> config) list \<Rightarrow> py_error + (pystr \<rightharpoonup> extraction)" where
  "extract_loop re_search partial_ratio text lines results [] = Inr results"
| "extract_loop re_search partial_ratio text lines results ((field_name, cfg) # rest) =
     (case extract_field re_search partial_ratio text lines cfg of
        Inl e \<Rightarrow> Inl e
      | Inr extracted_data \<Rightarrow>
          extract_loop re_search partial_ratio text lines
            (results(field_name \<mapsto> extracted_data)) rest)"

text \<open>\<open>FieldExtractor(patterns).extract(text)\<close>.\<close>

definition extract_fields ::
  "re_search \<Rightarrow> partial_ratio \<Rightarrow> (pystr \<times> config) list \<Rightarrow> pystr \<Rightarrow>
   py_error + (pystr \<rightharpoonup> extraction)" where
  "extract_fields re_search partial_ratio patterns text =
     extract_loop re_search partial_ratio text (split 10 text) Map.empty patterns"

section \<open>The approximate matcher as the spec describes it\<close>

text \<open>
  The spec describes \<open>_fuzzy_search\<close> as one arbitration over the candidates of all
  (line, keyword) pairs. The definitions of this section follow the spec's words; they
  are compared with the loops of the source below. A candidate is the value, its
  confidence and the similarity score of its pair.
\<close>

type_synonym candidate = "pystr \<times> rat \<times> rat"

text \<open>
  Steps 2 to 6: a pair is accepted when its similarity score reaches 85, and yields the
  last numeric token of the line, when the line has one.
\<close>

definition pair_candidates :: "partial_ratio \<Rightarrow> pystr \<Rightarrow> pystr \<Rightarrow> candidate list" where
  "pair_candidates partial_ratio line keyword =
     (let score = partial_ratio (lower keyword) (lower line)
      in if 85 \<le> score \<and> valid_values line \<noteq> []
         then [(last (valid_values line), calculate ''fuzzy'' score, score)]
         else [])"

text \<open>Step 1: blank lines are discarded. The keywords are taken in their order.\<close>

definition line_candidates :: "partial_ratio \<Rightarrow> pystr list \<Rightarrow> pystr \<Rightarrow> candidate list" where
  "line_candidates partial_ratio kws line =
     (if strip line = [] then [] else concat (map (pair_candidates partial_ratio line) kws))"

text \<open>The candidates of all pairs, in the order the pairs are met: line by line.\<close>

definition candidates :: "partial_ratio \<Rightarrow> pystr list \<Rightarrow> pystr list \<Rightarrow> candidate list" where
  "candidates partial_ratio lines kws = concat (map (line_candidates partial_ratio kws) lines)"

text \<open>Step 7: the best candidate so far is replaced on strictly greater confidence only.\<close>

definition take_better :: "best \<Rightarrow> candidate \<Rightarrow> best" where
  "take_better b c =
     (case c of (v, conf, s) \<Rightarrow>
        if best_score b < conf
        then \<lparr>best_candidate = Some v, best_score = conf, best_method_score = s\<rparr>
        else b)"

text \<open>Step 8: the candidate as a result.\<close>

definition as_result :: "candidate \<Rightarrow> extraction" where
  "as_result c = (case c of (v, conf, s) \<Rightarrow> \<lparr>value_r = Some v, confidence = conf, method_r = MFuzzy s\<rparr>)"

definition cand_conf :: "candidate \<Rightarrow> rat" where
  "cand_conf c = fst (snd c)"

definition best_of :: "candidate \<Rightarrow> best" where
  "best_of c = \<lparr>best_candidate = Some (fst c), best_score = cand_conf c, best_method_score = snd (snd c)\<rparr>"

section \<open>Well-behaved searches, and the library in the examples\<close>

text \<open>
  A search is well behaved for a field when the pattern compiles and, where it matches,
  the match has a last group that took part in it: then \<open>groups()[-1].strip()\<close> raises
  nothing.
\<close>

definition last_group_ok :: "re_search \<Rightarrow> pystr \<Rightarrow> config \<Rightarrow> bool" where
  "last_group_ok re_search text cfg =
     (case re_search (regex cfg) text of
        Inl e \<Rightarrow> False
      | Inr None \<Rightarrow> True
      | Inr (Some groups) \<Rightarrow> groups \<noteq> [] \<and> last groups \<noteq> None)"

text \<open>The entry of a field in what \<open>extract\<close> returns, the exception if it raised.\<close>

definition field_of :: "py_error + (pystr \<rightharpoonup> extraction) \<Rightarrow> pystr \<Rightarrow> py_error + extraction option" where
  "field_of outcome f = (case outcome of Inl e \<Rightarrow> Inl e | Inr results \<Rightarrow> Inr (results f))"

text \<open>
  The examples below run the engine on concrete documents, and need the two library
  functions at the arguments the engine passes there. \<open>re_search_demo\<close> is
  \<open>re.search\<close> at these patterns and texts:
  \<^item> \<open>Premium:( *)\<close> matches \<open>Premium:\<close> with the empty group, and \<open>Premium: Rs. 500\<close>
    with the group of one space;
  \<^item> \<open>(Policy)( Number)?\<close> matches \<open>Policy: 7\<close>, its second group taking no part;
  \<^item> \<open>Policy\<close>, without groups, matches \<open>Policy: 7\<close>;
  \<^item> at every other pair the examples use, the pattern does not match.

  \<open>partial_ratio_demo\<close> is the similarity score: 100 where the first string occurs in
  the second, as \<open>partial_ratio\<close> gives; 90 for the misspelt label of the examples that
  need a second accepted score; and 0, standing for a score below the threshold,
  elsewhere. The theorems hold for every search and every scorer.
\<close>

definition re_search_demo :: re_search where
  "re_search_demo pattern text =
     (if pattern = ustr ''Premium:( *)'' \<and> text = ustr ''Premium:'' then Inr (Some [Some []])
      else if pattern = ustr ''Premium:( *)'' \<and> text = ustr ''Premium: Rs. 500'' then Inr (Some [Some (ustr '' '')])
      else if pattern = ustr ''(Policy)( Number)?'' \<and> text = ustr ''Policy: 7''
        then Inr (Some [Some (ustr ''Policy''), None])
      else if pattern = ustr ''Policy'' \<and> text = ustr ''Policy: 7'' then Inr (Some [])
      else Inr None)"

fun occurs_in :: "pystr \<Rightarrow> pystr \<Rightarrow> bool" where
  "occurs_in p [] = (p = [])"
| "occurs_in p (c # cs) = (take (length p) (c # cs) = p \<or> occurs_in p cs)"

definition partial_ratio_demo :: partial_ratio where
  "partial_ratio_demo s1 s2 =
     (if s1 = ustr ''sum assured'' \<and> s2 = ustr ''sum asured 100'' then 90
      else if occurs_in s1 s2 then 100 else 0)"

section \<open>Properties of the float operations\<close>

lemma rhe_lower: "of_int n \<le> x \<Longrightarrow> n \<le> round_half_even x"
proof -
  assume "of_int n \<le> x"
  then have "n \<le> \<lfloor>x\<rfloor>" by (simp add: le_floor_iff)
  then show ?thesis by (simp add: round_half_even_def Let_def)
qed

lemma rhe_upper: "x \<le> of_int n \<Longrightarrow> round_half_even x \<le> n"
proof (cases "x = of_int n")
  case True
  then show ?thesis by (simp add: round_half_even_def Let_def)
next
  case False
  assume "x \<le> of_int n"
  with False have "x < of_int n" by simp
  then have "\<lfloor>x\<rfloor> < n" by (simp add: floor_less_iff)
  then show ?thesis by (simp add: round_half_even_def Let_def)
qed

lemma rhe_mono: "x \<le> y \<Longrightarrow> round_half_even x \<le> round_half_even y"
proof (cases "\<lfloor>x\<rfloor> = \<lfloor>y\<rfloor>")
  case True
  assume "x \<le> y"
  then have "x - of_int \<lfloor>x\<rfloor> \<le> y - of_int \<lfloor>y\<rfloor>" using True by simp
  then show ?thesis using True by (auto simp: round_half_even_def Let_def)
next
  case False
  assume xy: "x \<le> y"
  then have "\<lfloor>x\<rfloor> \<le> \<lfloor>y\<rfloor>" by (rule floor_mono)
  with False have "\<lfloor>x\<rfloor> + 1 \<le> \<lfloor>y\<rfloor>" by simp
  moreover have "round_half_even x \<le> \<lfloor>x\<rfloor> + 1" by (simp add: round_half_even_def Let_def)
  moreover have "\<lfloor>y\<rfloor> \<le> round_half_even y" by (simp add: round_half_even_def Let_def)
  ultimately show ?thesis by linarith
qed

lemma ilog2n_bounds: "0 < n \<Longrightarrow> 2 ^ ilog2n n \<le> n \<and> n < 2 ^ Suc (ilog2n n)"
proof (induction n rule: ilog2n.induct)
  case (1 n)
  show ?case
  proof (cases "n < 2")
    case True
    with "1.prems" show ?thesis by (simp add: ilog2n.simps)
  next
    case False
    then have "0 < n div 2" by simp
    with "1.IH" False have ih: "2 ^ ilog2n (n div 2) \<le> n div 2 \<and> n div 2 < 2 ^ Suc (ilog2n (n div 2))"
      by simp
    have eq: "ilog2n n = Suc (ilog2n (n div 2))" using False by (subst ilog2n.simps) simp
    from ih show ?thesis unfolding eq by simp linarith
  qed
qed

lemma ilog2_bounds:
  assumes "0 < x"
  shows "2 powi ilog2 x \<le> x \<and> x < 2 powi (ilog2 x + 1)"
proof (cases "1 \<le> x")
  case True
  define m where "m = nat \<lfloor>x\<rfloor>"
  have m1: "0 < m" using True by (simp add: m_def)
  have e: "ilog2 x = int (ilog2n m)" using True by (simp add: ilog2_def m_def)
  from ilog2n_bounds[OF m1] have b: "2 ^ ilog2n m \<le> m" "m < 2 ^ Suc (ilog2n m)" by simp_all
  have mx: "rat_of_nat m \<le> x" using True by (simp add: m_def)
  have xm: "x < rat_of_nat m + 1" using True by (simp add: m_def) linarith
  have "(2::rat) ^ ilog2n m \<le> rat_of_nat m" using b(1)
    by (metis of_nat_le_iff of_nat_numeral of_nat_power)
  then have lo: "(2::rat) ^ ilog2n m \<le> x" using mx by linarith
  have "m + 1 \<le> 2 ^ Suc (ilog2n m)" using b(2) by simp
  then have "rat_of_nat (m + 1) \<le> rat_of_nat (2 ^ Suc (ilog2n m))" by (simp only: of_nat_le_iff)
  then have "rat_of_nat m + 1 \<le> 2 ^ Suc (ilog2n m)" by simp
  then have hi: "x < 2 ^ Suc (ilog2n m)" using xm by linarith
  show ?thesis unfolding e using lo hi
    by (simp add: power_int_def nat_add_distrib)
next
  case False
  then have x1: "x < 1" by simp
  define c where "c = \<lceil>1 / x\<rceil>"
  define m where "m = nat (c - 1)"
  have inv1: "1 < 1 / x" using assms x1 by simp
  then have c2: "2 \<le> c" unfolding c_def by (simp add: le_ceiling_iff)
  have m1: "0 < m" using c2 by (simp add: m_def)
  have e: "ilog2 x = - int (Suc (ilog2n m))" using False by (simp add: ilog2_def m_def c_def)
  from ilog2n_bounds[OF m1] have b: "2 ^ ilog2n m \<le> m" "m < 2 ^ Suc (ilog2n m)" by simp_all
  have mc: "int m = c - 1" using c2 by (simp add: m_def)
  have c_hi: "1 / x \<le> of_int c" unfolding c_def by (rule le_of_int_ceiling)
  have c_lo: "of_int c - 1 < 1 / x" unfolding c_def using ceiling_correct[of "1/x"] by linarith
  have "int m + 1 \<le> 2 ^ Suc (ilog2n m)" using b(2)
    by (metis Suc_leI add.commute of_nat_Suc of_nat_le_iff of_nat_numeral of_nat_power)
  then have "c \<le> 2 ^ Suc (ilog2n m)" using mc by simp
  then have "rat_of_int c \<le> rat_of_int (2 ^ Suc (ilog2n m))" by (simp only: of_int_le_iff)
  then have "1 / x \<le> 2 ^ Suc (ilog2n m)" using c_hi by simp
  then have lo: "1 / 2 ^ Suc (ilog2n m) \<le> x" using assms
    by (simp add: field_simps)
  have "(2::int) ^ ilog2n m \<le> int m" using b(1)
    by (metis of_nat_le_iff of_nat_numeral of_nat_power)
  then have "rat_of_int (2 ^ ilog2n m) \<le> rat_of_int (c - 1)" using mc by (simp only: of_int_le_iff)
  then have "(2::rat) ^ ilog2n m < 1 / x" using c_lo by simp
  then have hi: "x < 1 / 2 ^ ilog2n m" using assms
    by (simp add: field_simps)
  have p1: "(2::rat) powi (- int (Suc (ilog2n m))) = 1 / 2 ^ Suc (ilog2n m)"
    by (simp only: power_int_minus power_int_of_nat inverse_eq_divide)
  have p2: "(2::rat) powi (- int (Suc (ilog2n m)) + 1) = 1 / 2 ^ ilog2n m"
  proof -
    have "- int (Suc (ilog2n m)) + 1 = - int (ilog2n m)" by simp
    then show ?thesis by (simp only: power_int_minus power_int_of_nat inverse_eq_divide)
  qed
  show ?thesis unfolding e p1 p2 using lo hi by simp
qed

lemma ilog2_mono:
  assumes "0 < x" "x \<le> y"
  shows "ilog2 x \<le> ilog2 y"
proof (rule ccontr)
  assume "\<not> ilog2 x \<le> ilog2 y"
  then have "ilog2 y + 1 \<le> ilog2 x" by simp
  then have "(2::rat) powi (ilog2 y + 1) \<le> 2 powi ilog2 x"
    by (intro power_int_increasing) simp_all
  moreover have "2 powi ilog2 x \<le> x" using ilog2_bounds[OF assms(1)] by simp
  moreover have "y < 2 powi (ilog2 y + 1)" using ilog2_bounds[of y] assms by simp
  ultimately show False using assms(2) by linarith
qed

lemma ulp_pos: "0 < ulp x"
  by (simp add: ulp_def)

lemma pow2_split53: "(2::rat) powi (b + 1) = 2 ^ 53 * 2 powi (b - 52)"
proof -
  have "(2::rat) powi (53 + (b - 52)) = 2 powi 53 * 2 powi (b - 52)"
    by (rule power_int_add) simp
  moreover have "53 + (b - 52) = b + 1" by simp
  ultimately show ?thesis by simp
qed

lemma pow2_split52: "(2::rat) powi b = 2 ^ 52 * 2 powi (b - 52)"
proof -
  have "(2::rat) powi (52 + (b - 52)) = 2 powi 52 * 2 powi (b - 52)"
    by (rule power_int_add) simp
  then show ?thesis by simp
qed

lemma to_double_pos_eq: "0 < x \<Longrightarrow> to_double x = of_int (round_half_even (x / ulp x)) * ulp x"
  by (simp add: to_double_def)

lemma to_double_pos_upper:
  assumes "0 < x"
  shows "to_double x \<le> 2 powi (binade x + 1)"
proof -
  have "ilog2 x + 1 \<le> binade x + 1" by (simp add: binade_def)
  then have "(2::rat) powi (ilog2 x + 1) \<le> 2 powi (binade x + 1)"
    by (intro power_int_increasing) simp_all
  then have "x \<le> 2 powi (binade x + 1)" using ilog2_bounds[OF assms] by linarith
  then have "x \<le> 2 ^ 53 * ulp x" by (simp only: pow2_split53 ulp_def)
  then have "x / ulp x \<le> rat_of_int (2 ^ 53)" using ulp_pos[of x]
    by (simp add: field_simps)
  then have "round_half_even (x / ulp x) \<le> 2 ^ 53" by (rule rhe_upper)
  then have "rat_of_int (round_half_even (x / ulp x)) \<le> rat_of_int (2 ^ 53)"
    by (simp only: of_int_le_iff)
  then have "rat_of_int (round_half_even (x / ulp x)) * ulp x \<le> rat_of_int (2 ^ 53) * ulp x"
    using ulp_pos[of x] by (simp only: mult_le_cancel_right_pos)
  then show ?thesis unfolding to_double_pos_eq[OF assms]
    by (simp add: pow2_split53 ulp_def)
qed

lemma to_double_pos_lower:
  assumes "0 < x" "binade x = ilog2 x"
  shows "2 powi binade x \<le> to_double x"
proof -
  have "2 powi binade x \<le> x" using ilog2_bounds[OF assms(1)] assms(2) by simp
  then have "2 ^ 52 * ulp x \<le> x" by (subst (asm) pow2_split52) (simp only: ulp_def)
  then have "rat_of_int (2 ^ 52) \<le> x / ulp x" using ulp_pos[of x]
    by (simp add: field_simps)
  then have "2 ^ 52 \<le> round_half_even (x / ulp x)" by (rule rhe_lower)
  then have "rat_of_int (2 ^ 52) \<le> rat_of_int (round_half_even (x / ulp x))"
    by (simp only: of_int_le_iff)
  then have "rat_of_int (2 ^ 52) * ulp x \<le> rat_of_int (round_half_even (x / ulp x)) * ulp x"
    using ulp_pos[of x] by (simp only: mult_le_cancel_right_pos)
  then show ?thesis unfolding to_double_pos_eq[OF assms(1)]
    by (subst pow2_split52) (simp add: ulp_def)
qed

lemma to_double_mono_pos:
  assumes "0 < x" "x \<le> y"
  shows "to_double x \<le> to_double y"
proof (cases "binade x = binade y")
  case True
  then have u: "ulp x = ulp y" by (simp add: ulp_def)
  have y0: "0 < y" using assms by simp
  have "x / ulp y \<le> y / ulp y" using assms(2) ulp_pos[of y] by (simp add: divide_right_mono)
  then have "round_half_even (x / ulp y) \<le> round_half_even (y / ulp y)" by (rule rhe_mono)
  then have "rat_of_int (round_half_even (x / ulp y)) \<le> rat_of_int (round_half_even (y / ulp y))"
    by (simp only: of_int_le_iff)
  then have "rat_of_int (round_half_even (x / ulp y)) * ulp y
               \<le> rat_of_int (round_half_even (y / ulp y)) * ulp y"
    using ulp_pos[of y] by (simp only: mult_le_cancel_right_pos)
  then show ?thesis unfolding to_double_pos_eq[OF assms(1)] to_double_pos_eq[OF y0] u .
next
  case False
  have y0: "0 < y" using assms by simp
  have "ilog2 x \<le> ilog2 y" using assms by (rule ilog2_mono)
  then have "binade x \<le> binade y" by (simp add: binade_def)
  with False have lt: "binade x + 1 \<le> binade y" by simp
  then have "- 1022 < binade y" by (simp add: binade_def)
  then have ny: "binade y = ilog2 y" by (simp add: binade_def max_def split: if_splits)
  have "to_double x \<le> 2 powi (binade x + 1)" using assms(1) by (rule to_double_pos_upper)
  also have "\<dots> \<le> 2 powi binade y" using lt by (intro power_int_increasing) simp_all
  also have "\<dots> \<le> to_double y" using y0 ny by (rule to_double_pos_lower)
  finally show ?thesis .
qed

lemma to_double_nonneg: "0 \<le> x \<Longrightarrow> 0 \<le> to_double x"
proof (cases "x = 0")
  case True
  then show ?thesis by (simp add: to_double_def)
next
  case False
  assume "0 \<le> x"
  with False have x0: "0 < x" by simp
  then have "0 \<le> x / ulp x" using ulp_pos[of x] by simp
  then have "rat_of_int 0 \<le> x / ulp x" by simp
  then have "0 \<le> round_half_even (x / ulp x)" by (rule rhe_lower)
  then show ?thesis unfolding to_double_pos_eq[OF x0] using ulp_pos[of x] by simp
qed

lemma to_double_minus: "to_double (- x) = - to_double x"
  by (simp add: to_double_def)

lemma to_double_mono:
  assumes "x \<le> y"
  shows "to_double x \<le> to_double y"
proof -
  consider "0 < x" | "x \<le> 0" "0 \<le> y" | "y < 0" by linarith
  then show ?thesis
  proof cases
    case 1
    then show ?thesis using assms by (rule to_double_mono_pos)
  next
    case 2
    have "0 \<le> to_double (- x)" using 2(1) by (intro to_double_nonneg) simp
    then have "to_double x \<le> 0" by (simp add: to_double_minus)
    moreover have "0 \<le> to_double y" using 2(2) by (rule to_double_nonneg)
    ultimately show ?thesis by linarith
  next
    case 3
    then have "0 < - y" "- y \<le> - x" using assms by simp_all
    then have "to_double (- y) \<le> to_double (- x)" by (rule to_double_mono_pos)
    then show ?thesis by (simp add: to_double_minus)
  qed
qed

lemma py_round_mono: "x \<le> y \<Longrightarrow> py_round x n \<le> py_round y n"
proof -
  assume "x \<le> y"
  then have "x * 10 ^ n \<le> y * 10 ^ n" by (simp add: mult_right_mono)
  then have "round_half_even (x * 10 ^ n) \<le> round_half_even (y * 10 ^ n)" by (rule rhe_mono)
  then have "rat_of_int (round_half_even (x * 10 ^ n)) \<le> rat_of_int (round_half_even (y * 10 ^ n))"
    by (simp only: of_int_le_iff)
  then have "rat_of_int (round_half_even (x * 10 ^ n)) / 10 ^ n
               \<le> rat_of_int (round_half_even (y * 10 ^ n)) / 10 ^ n"
    by (simp add: divide_right_mono)
  then show ?thesis unfolding py_round_def by (rule to_double_mono)
qed

section \<open>Properties of the confidence model\<close>

lemma lit_0_85_nonneg: "0 \<le> lit_0_85"
  unfolding lit_0_85_def by (rule to_double_nonneg) simp

lemma calculate_fuzzy_mono:
  assumes "q1 \<le> q2"
  shows "calculate ''fuzzy'' q1 \<le> calculate ''fuzzy'' q2"
proof -
  have "q1 / 100 \<le> q2 / 100" using assms by simp
  then have "fdiv q1 100 \<le> fdiv q2 100" unfolding fdiv_def by (rule to_double_mono)
  then have "fdiv q1 100 * lit_0_85 \<le> fdiv q2 100 * lit_0_85"
    using lit_0_85_nonneg by (rule mult_right_mono)
  then have "fmul (fdiv q1 100) lit_0_85 \<le> fmul (fdiv q2 100) lit_0_85"
    unfolding fmul_def by (rule to_double_mono)
  then have "py_round (fmul (fdiv q1 100) lit_0_85) 2 \<le> py_round (fmul (fdiv q2 100) lit_0_85) 2"
    by (rule py_round_mono)
  then show ?thesis by (simp add: calculate_def)
qed

lemma calculate_fuzzy_100: "calculate ''fuzzy'' 100 = lit_0_85"
  by code_simp

lemma calculate_fuzzy_85: "calculate ''fuzzy'' 85 = lit_0_72"
  by code_simp

lemma calculate_fuzzy_0: "calculate ''fuzzy'' 0 = 0"
  by code_simp

lemma calculate_regex: "calculate ''regex'' q = lit_0_95"
  by (simp add: calculate_def)

lemma lit_0_85_less_0_95: "lit_0_85 < lit_0_95"
  by code_simp

lemma lit_0_72_pos: "0 < lit_0_72"
  by code_simp

text \<open>The three literals are the binary64 numbers with these significands.\<close>

lemma lit_values:
  "lit_0_95 = 8556839292003942 / 2 ^ 53 \<and> lit_0_85 = 7656119366529843 / 2 ^ 53
   \<and> lit_0_72 = 6485183463413514 / 2 ^ 53"
  by code_simp

text \<open>
  The rounding of the float operations shows in the result: at quality 10 the exact
  product 0.085 would round to 0.08 (ties to even), the float product lies above it and
  rounds to 0.09.
\<close>

lemma calculate_fuzzy_10:
  "calculate ''fuzzy'' 10 = to_double (9 / 100)
   \<and> round_half_even (10 / 100 * (85 / 100) * 10 ^ 2) = 8"
  by code_simp

text \<open>
  C2. \<open>calculate("regex", q)\<close> is the float 0.95 for every quality \<open>q\<close>;
  \<open>calculate("fuzzy", q)\<close> is \<open>round(q / 100.0 * 0.85, 2)\<close> in float arithmetic, which is
  0.85 at 100, 0.0 at 0 and monotonically non-decreasing in \<open>q\<close>; every other method
  gives 0.0. The result is a function of the two arguments alone.
\<close>

theorem calculate_contract:
  "calculate ''regex'' q = lit_0_95
   \<and> calculate ''fuzzy'' q = py_round (fmul (fdiv q 100) lit_0_85) 2
   \<and> calculate ''fuzzy'' 100 = lit_0_85
   \<and> calculate ''fuzzy'' 0 = 0
   \<and> (q1 \<le> q2 \<longrightarrow> calculate ''fuzzy'' q1 \<le> calculate ''fuzzy'' q2)
   \<and> (m \<noteq> ''regex'' \<and> m \<noteq> ''fuzzy'' \<longrightarrow> calculate m q = 0)"
proof (intro conjI impI)
  show "calculate ''regex'' q = lit_0_95" by (rule calculate_regex)
  show "calculate ''fuzzy'' q = py_round (fmul (fdiv q 100) lit_0_85) 2"
    by (simp add: calculate_def)
  show "calculate ''fuzzy'' 100 = lit_0_85" by (rule calculate_fuzzy_100)
  show "calculate ''fuzzy'' 0 = 0" by (rule calculate_fuzzy_0)
next
  assume "q1 \<le> q2"
  then show "calculate ''fuzzy'' q1 \<le> calculate ''fuzzy'' q2" by (rule calculate_fuzzy_mono)
next
  assume "m \<noteq> ''regex'' \<and> m \<noteq> ''fuzzy''"
  then show "calculate m q = 0" by (simp add: calculate_def)
qed

theorem calculate_contract_witness:
  "(90::rat) \<le> 100 \<and> calculate ''fuzzy'' 90 \<le> calculate ''fuzzy'' 100
   \<and> ''none'' \<noteq> ''regex'' \<and> ''none'' \<noteq> ''fuzzy'' \<and> calculate ''none'' 50 = 0
   \<and> calculate ''regex'' 50 = lit_0_95"
  using calculate_contract [where q = 50 and ?q1.0 = 90 and ?q2.0 = 100 and m = "''none''"]
  by simp

section \<open>The loops of the matcher are the arbitration of the spec\<close>

lemma fuzzy_keyword_take:
  "fuzzy_keyword pr line b kw = foldl take_better b (pair_candidates pr line kw)"
  by (simp add: fuzzy_keyword_def take_better_def pair_candidates_def Let_def)

lemma foldl_fuzzy_keyword:
  "foldl (fuzzy_keyword pr line) b kws =
     foldl take_better b (concat (map (pair_candidates pr line) kws))"
proof (induction kws arbitrary: b)
  case Nil
  then show ?case by simp
next
  case (Cons kw kws)
  have "foldl (fuzzy_keyword pr line) b (kw # kws)
          = foldl (fuzzy_keyword pr line) (fuzzy_keyword pr line b kw) kws" by simp
  also have "\<dots> = foldl take_better (fuzzy_keyword pr line b kw)
                      (concat (map (pair_candidates pr line) kws))" by (rule Cons.IH)
  also have "\<dots> = foldl take_better b (concat (map (pair_candidates pr line) (kw # kws)))"
    by (simp add: fuzzy_keyword_take)
  finally show ?case .
qed

lemma fuzzy_line_take:
  "fuzzy_line pr kws b line = foldl take_better b (line_candidates pr kws line)"
  by (simp add: fuzzy_line_def line_candidates_def foldl_fuzzy_keyword)

lemma foldl_fuzzy_line:
  "foldl (fuzzy_line pr kws) b lines = foldl take_better b (candidates pr lines kws)"
proof (induction lines arbitrary: b)
  case Nil
  then show ?case by (simp add: candidates_def)
next
  case (Cons l ls)
  have "foldl (fuzzy_line pr kws) b (l # ls)
          = foldl (fuzzy_line pr kws) (fuzzy_line pr kws b l) ls" by simp
  also have "\<dots> = foldl take_better (fuzzy_line pr kws b l) (candidates pr ls kws)"
    by (rule Cons.IH)
  also have "\<dots> = foldl take_better b (candidates pr (l # ls) kws)"
    by (simp add: fuzzy_line_take candidates_def)
  finally show ?case .
qed

lemma take_better_first_max:
  assumes "\<And>c. c \<in> set cs \<Longrightarrow> 0 < cand_conf c"
  shows "(cs = [] \<and> foldl take_better best_init cs = best_init)
       \<or> (\<exists>i<length cs. foldl take_better best_init cs = best_of (cs ! i)
             \<and> (\<forall>j<i. cand_conf (cs ! j) < cand_conf (cs ! i))
             \<and> (\<forall>j<length cs. cand_conf (cs ! j) \<le> cand_conf (cs ! i)))"
  using assms
proof (induction cs rule: rev_induct)
  case Nil
  then show ?case by simp
next
  case (snoc c cs)
  have pos: "0 < cand_conf c" using snoc.prems by simp
  from snoc have IH: "(cs = [] \<and> foldl take_better best_init cs = best_init)
       \<or> (\<exists>i<length cs. foldl take_better best_init cs = best_of (cs ! i)
             \<and> (\<forall>j<i. cand_conf (cs ! j) < cand_conf (cs ! i))
             \<and> (\<forall>j<length cs. cand_conf (cs ! j) \<le> cand_conf (cs ! i)))" by simp
  show ?case
  proof (rule disjI2)
    from IH show "\<exists>i<length (cs @ [c]). foldl take_better best_init (cs @ [c]) = best_of ((cs @ [c]) ! i)
             \<and> (\<forall>j<i. cand_conf ((cs @ [c]) ! j) < cand_conf ((cs @ [c]) ! i))
             \<and> (\<forall>j<length (cs @ [c]). cand_conf ((cs @ [c]) ! j) \<le> cand_conf ((cs @ [c]) ! i))"
    proof
      assume e: "cs = [] \<and> foldl take_better best_init cs = best_init"
      then have "foldl take_better best_init (cs @ [c]) = best_of c"
        using pos by (cases c) (simp add: take_better_def best_init_def best_of_def cand_conf_def)
      with e show ?thesis by (intro exI[of _ 0]) simp
    next
      assume "\<exists>i<length cs. foldl take_better best_init cs = best_of (cs ! i)
             \<and> (\<forall>j<i. cand_conf (cs ! j) < cand_conf (cs ! i))
             \<and> (\<forall>j<length cs. cand_conf (cs ! j) \<le> cand_conf (cs ! i))"
      then obtain i where i: "i < length cs" "foldl take_better best_init cs = best_of (cs ! i)"
        "\<forall>j<i. cand_conf (cs ! j) < cand_conf (cs ! i)"
        "\<forall>j<length cs. cand_conf (cs ! j) \<le> cand_conf (cs ! i)" by blast
      show ?thesis
      proof (cases "cand_conf (cs ! i) < cand_conf c")
        case True
        then have "foldl take_better best_init (cs @ [c]) = best_of c"
          using i(2) by (cases c) (simp add: take_better_def best_of_def cand_conf_def)
        moreover have "\<forall>j<length cs. cand_conf (cs ! j) < cand_conf c"
          using i(4) True by fastforce
        ultimately show ?thesis
          by (intro exI[of _ "length cs"]) (auto simp: nth_append less_Suc_eq)
      next
        case False
        then have "foldl take_better best_init (cs @ [c]) = best_of (cs ! i)"
          using i(2) by (cases c) (simp add: take_better_def best_of_def cand_conf_def)
        then show ?thesis using i False
          by (intro exI[of _ i]) (auto simp: nth_append less_Suc_eq)
      qed
    qed
  qed
qed

lemma strip_empty_iff: "strip s = [] \<longleftrightarrow> (\<forall>c\<in>set s. is_space c)"
proof
  assume "\<forall>c\<in>set s. is_space c"
  then have d: "dropWhile is_space s = []" by simp
  show "strip s = []" unfolding strip_def d by simp
next
  assume "strip s = []"
  then have a: "\<forall>c\<in>set (dropWhile is_space s). is_space c" by (simp add: strip_def)
  have "dropWhile is_space s = []"
  proof (cases "dropWhile is_space s")
    case Nil
    then show ?thesis .
  next
    case (Cons x xs)
    then have "\<not> is_space x" using hd_dropWhile[of is_space s] by simp
    moreover have "is_space x" using a Cons by simp
    ultimately show ?thesis by simp
  qed
  then show "\<forall>c\<in>set s. is_space c" by simp
qed

lemma space_cases:
  "is_space c \<Longrightarrow> (9 \<le> c \<and> c \<le> 13) \<or> (28 \<le> c \<and> c \<le> 32) \<or> c = 133 \<or> c = 160 \<or> c = 5760
     \<or> (8192 \<le> c \<and> c \<le> 8202) \<or> c = 8232 \<or> c = 8233 \<or> c = 8239 \<or> c = 8287 \<or> c = 12288"
  by (simp add: is_space_def space_ranges_def split: if_splits) arith

lemma digit_not_space: "is_digit c \<Longrightarrow> \<not> is_space c"
proof
  assume d: "is_digit c" and "is_space c"
  then consider "9 \<le> c \<and> c \<le> 13" | "28 \<le> c \<and> c \<le> 32" | "c = 133" | "c = 160" | "c = 5760"
     | "8192 \<le> c \<and> c \<le> 8202" | "c = 8232" | "c = 8233" | "c = 8239" | "c = 8287" | "c = 12288"
    using space_cases by blast
  then show False
  proof cases
    case 1 with d show False by (simp add: is_digit_def digit_ranges_def)
  next
    case 2 with d show False by (simp add: is_digit_def digit_ranges_def)
  next
    case 3 with d show False by (simp add: is_digit_def digit_ranges_def)
  next
    case 4 with d show False by (simp add: is_digit_def digit_ranges_def)
  next
    case 5 with d show False by (simp add: is_digit_def digit_ranges_def)
  next
    case 6 with d show False by (simp add: is_digit_def digit_ranges_def)
  next
    case 7 with d show False by (simp add: is_digit_def digit_ranges_def)
  next
    case 8 with d show False by (simp add: is_digit_def digit_ranges_def)
  next
    case 9 with d show False by (simp add: is_digit_def digit_ranges_def)
  next
    case 10 with d show False by (simp add: is_digit_def digit_ranges_def)
  next
    case 11 with d show False by (simp add: is_digit_def digit_ranges_def)
  qed
qed

lemma has_digit_strip: "list_ex is_digit n \<Longrightarrow> strip n \<noteq> []"
  by (auto simp: strip_empty_iff list_ex_iff dest: digit_not_space)

lemma valid_values_digits: "valid_values line = filter (list_ex is_digit) (findall_numbers line)"
  unfolding valid_values_def by (rule filter_cong) (auto dest: has_digit_strip)

lemma last_valid_nonempty: "valid_values line \<noteq> [] \<Longrightarrow> last (valid_values line) \<noteq> []"
proof -
  assume "valid_values line \<noteq> []"
  then have "last (valid_values line) \<in> set (valid_values line)" by (rule last_in_set)
  then have "list_ex is_digit (last (valid_values line))" by (simp add: valid_values_def)
  then show ?thesis by (auto simp: list_ex_iff)
qed

lemma pair_candidates_elem:
  "c \<in> set (pair_candidates pr line kw) \<Longrightarrow>
     85 \<le> pr (lower kw) (lower line) \<and> valid_values line \<noteq> []
     \<and> c = (last (valid_values line), calculate ''fuzzy'' (pr (lower kw) (lower line)),
            pr (lower kw) (lower line))"
  by (auto simp: pair_candidates_def Let_def split: if_splits)

lemma candidates_elem:
  assumes "c \<in> set (candidates pr lines kws)"
  shows "\<exists>line kw. line \<in> set lines \<and> kw \<in> set kws \<and> strip line \<noteq> []
           \<and> 85 \<le> pr (lower kw) (lower line) \<and> valid_values line \<noteq> []
           \<and> c = (last (valid_values line), calculate ''fuzzy'' (pr (lower kw) (lower line)),
                  pr (lower kw) (lower line))"
proof -
  from assms obtain line where l: "line \<in> set lines" "c \<in> set (line_candidates pr kws line)"
    by (auto simp: candidates_def)
  then have ne: "strip line \<noteq> []" by (auto simp: line_candidates_def split: if_splits)
  with l(2) obtain kw where k: "kw \<in> set kws" "c \<in> set (pair_candidates pr line kw)"
    by (auto simp: line_candidates_def)
  from pair_candidates_elem[OF k(2)] l(1) k(1) ne show ?thesis by blast
qed

lemma calculate_fuzzy_pos: "85 \<le> s \<Longrightarrow> 0 < calculate ''fuzzy'' s"
proof -
  assume "85 \<le> s"
  then have "calculate ''fuzzy'' 85 \<le> calculate ''fuzzy'' s" by (rule calculate_fuzzy_mono)
  then show ?thesis using lit_0_72_pos by (simp add: calculate_fuzzy_85)
qed

lemma candidates_pos: "c \<in> set (candidates pr lines kws) \<Longrightarrow> 0 < cand_conf c"
  by (auto dest!: candidates_elem simp: cand_conf_def calculate_fuzzy_pos)

lemma candidates_value_nonempty: "c \<in> set (candidates pr lines kws) \<Longrightarrow> fst c \<noteq> []"
  by (auto dest!: candidates_elem simp: last_valid_nonempty)

lemma fuzzy_search_fold:
  "fuzzy_search pr lines kws =
     (case best_candidate (foldl take_better best_init (candidates pr lines kws)) of
        None \<Rightarrow> None
      | Some v \<Rightarrow>
          if v = [] then None
          else Some \<lparr>value_r = Some v,
                     confidence = best_score (foldl take_better best_init (candidates pr lines kws)),
                     method_r = MFuzzy (best_method_score (foldl take_better best_init (candidates pr lines kws)))\<rparr>)"
  by (simp add: fuzzy_search_def foldl_fuzzy_line Let_def)

lemma fuzzy_search_no_candidates:
  "candidates pr lines kws = [] \<Longrightarrow> fuzzy_search pr lines kws = None"
  by (simp add: fuzzy_search_fold best_init_def)

lemma fuzzy_search_first_max:
  assumes "candidates pr lines kws \<noteq> []"
  shows "\<exists>i<length (candidates pr lines kws).
           fuzzy_search pr lines kws = Some (as_result (candidates pr lines kws ! i))
           \<and> (\<forall>j<i. cand_conf (candidates pr lines kws ! j) < cand_conf (candidates pr lines kws ! i))
           \<and> (\<forall>j<length (candidates pr lines kws).
                 cand_conf (candidates pr lines kws ! j) \<le> cand_conf (candidates pr lines kws ! i))"
proof -
  let ?cs = "candidates pr lines kws"
  have "\<And>c. c \<in> set ?cs \<Longrightarrow> 0 < cand_conf c" by (rule candidates_pos)
  from take_better_first_max[OF this] assms obtain i where i: "i < length ?cs"
    "foldl take_better best_init ?cs = best_of (?cs ! i)"
    "\<forall>j<i. cand_conf (?cs ! j) < cand_conf (?cs ! i)"
    "\<forall>j<length ?cs. cand_conf (?cs ! j) \<le> cand_conf (?cs ! i)" by blast
  have "?cs ! i \<in> set ?cs" using i(1) by simp
  then have "fst (?cs ! i) \<noteq> []" by (rule candidates_value_nonempty)
  then have "fuzzy_search pr lines kws = Some (as_result (?cs ! i))"
    by (simp add: fuzzy_search_fold i(2) best_of_def as_result_def cand_conf_def split: prod.splits)
  with i show ?thesis by blast
qed

lemma fuzzy_search_Some_candidate:
  assumes "fuzzy_search pr lines kws = Some r"
  shows "\<exists>c \<in> set (candidates pr lines kws). r = as_result c"
proof -
  have "candidates pr lines kws \<noteq> []" using assms fuzzy_search_no_candidates by fastforce
  from fuzzy_search_first_max[OF this] assms show ?thesis by (metis nth_mem option.inject)
qed

lemma two_candidates_90_100:
  assumes "candidates pr lines kws = [(v1, c1, 90), (v2, c2, 100)]
         \<or> candidates pr lines kws = [(v2, c2, 100), (v1, c1, 90)]"
  shows "fuzzy_search pr lines kws
           = Some \<lparr>value_r = Some v2, confidence = lit_0_85, method_r = MFuzzy 100\<rparr>"
proof -
  have m1: "(v1, c1, 90) \<in> set (candidates pr lines kws)"
    and m2: "(v2, c2, 100) \<in> set (candidates pr lines kws)" using assms by auto
  from candidates_elem[OF m1] have c1: "c1 = calculate ''fuzzy'' 90" by auto
  from candidates_elem[OF m2] have c2: "c2 = lit_0_85" by (auto simp: calculate_fuzzy_100)
  from candidates_value_nonempty[OF m2] have v2: "v2 \<noteq> []" by simp
  have lt: "c1 < c2" unfolding c1 c2 by code_simp
  have p1: "0 < c1" using candidates_pos[OF m1] by (simp add: cand_conf_def)
  have p2: "0 < c2" using candidates_pos[OF m2] by (simp add: cand_conf_def)
  from assms show ?thesis
  proof
    assume "candidates pr lines kws = [(v1, c1, 90), (v2, c2, 100)]"
    then show ?thesis using lt p1 v2
      by (simp add: fuzzy_search_fold take_better_def best_init_def c2)
  next
    assume "candidates pr lines kws = [(v2, c2, 100), (v1, c1, 90)]"
    then show ?thesis using lt p2 v2
      by (simp add: fuzzy_search_fold take_better_def best_init_def c2)
  qed
qed

section \<open>Properties of the loop over the fields\<close>

lemma regex_attempt_cases:
  "regex_attempt re text cfg =
     (case re (regex cfg) text of
        Inl e \<Rightarrow> Inl e
      | Inr None \<Rightarrow> Inr default_result
      | Inr (Some groups) \<Rightarrow>
          (if groups = [] then Inl IndexError
           else (case last groups of
                   None \<Rightarrow> Inl AttributeError
                 | Some g \<Rightarrow>
                     Inr \<lparr>value_r = Some (strip g), confidence = lit_0_95,
                          method_r = MRegex\<rparr>)))"
  by (simp add: regex_attempt_def calculate_regex split: sum.splits option.splits)

lemma extract_field_no_match:
  "re (regex cfg) text = Inr None \<Longrightarrow>
   extract_field re pr text lines cfg =
     (case fuzzy_search pr lines (keywords_c cfg) of Some c \<Rightarrow> Inr c | None \<Rightarrow> Inr default_result)"
  by (simp add: extract_field_def regex_attempt_def no_value_def default_result_def split: option.splits)

lemma extract_field_empty_capture:
  "re (regex cfg) text = Inr (Some groups) \<Longrightarrow> groups \<noteq> [] \<Longrightarrow> last groups = Some g \<Longrightarrow>
   strip g = [] \<Longrightarrow>
   extract_field re pr text lines cfg =
     (case fuzzy_search pr lines (keywords_c cfg) of
        Some c \<Rightarrow> Inr c
      | None \<Rightarrow> Inr \<lparr>value_r = Some [], confidence = lit_0_95, method_r = MRegex\<rparr>)"
  by (simp add: extract_field_def regex_attempt_cases no_value_def split: option.splits)

lemma extract_field_capture:
  "re (regex cfg) text = Inr (Some groups) \<Longrightarrow> groups \<noteq> [] \<Longrightarrow> last groups = Some g \<Longrightarrow>
   strip g \<noteq> [] \<Longrightarrow>
   extract_field re pr text lines cfg =
     Inr \<lparr>value_r = Some (strip g), confidence = lit_0_95, method_r = MRegex\<rparr>"
  by (simp add: extract_field_def regex_attempt_cases no_value_def)

lemma extract_field_no_groups:
  "re (regex cfg) text = Inr (Some []) \<Longrightarrow> extract_field re pr text lines cfg = Inl IndexError"
  by (simp add: extract_field_def regex_attempt_def)

lemma extract_field_unmatched_group:
  "re (regex cfg) text = Inr (Some groups) \<Longrightarrow> groups \<noteq> [] \<Longrightarrow> last groups = None \<Longrightarrow>
   extract_field re pr text lines cfg = Inl AttributeError"
  by (simp add: extract_field_def regex_attempt_def)

lemma extract_field_ok:
  "last_group_ok re text cfg \<Longrightarrow> \<exists>d. extract_field re pr text lines cfg = Inr d"
  by (auto simp: last_group_ok_def extract_field_def regex_attempt_def
           split: sum.splits option.splits if_splits)

lemma extract_field_shape:
  assumes "extract_field re pr text lines cfg = Inr r"
  shows "r = default_result
       \<or> (\<exists>g. r = \<lparr>value_r = Some (strip g), confidence = lit_0_95, method_r = MRegex\<rparr>)
       \<or> fuzzy_search pr lines (keywords_c cfg) = Some r"
  using assms
  by (auto simp: extract_field_def regex_attempt_cases split: sum.splits option.splits if_splits)

lemma extract_loop_keeps:
  "extract_loop re pr text lines results ps = Inr res \<Longrightarrow> f \<notin> fst ` set ps \<Longrightarrow> res f = results f"
proof (induction ps arbitrary: results)
  case Nil
  then show ?case by simp
next
  case (Cons p ps)
  obtain n cfg where p: "p = (n, cfg)" by (cases p)
  from Cons.prems(1) obtain d where d: "extract_field re pr text lines cfg = Inr d"
    "extract_loop re pr text lines (results(n \<mapsto> d)) ps = Inr res"
    by (auto simp: p split: sum.splits)
  from Cons.prems(2) have "f \<noteq> n" "f \<notin> fst ` set ps" by (auto simp: p)
  with Cons.IH[OF d(2)] show ?case by simp
qed

lemma extract_loop_dom:
  "extract_loop re pr text lines results ps = Inr res \<Longrightarrow> dom res = dom results \<union> fst ` set ps"
proof (induction ps arbitrary: results)
  case Nil
  then show ?case by simp
next
  case (Cons p ps)
  obtain n cfg where p: "p = (n, cfg)" by (cases p)
  from Cons.prems obtain d where d: "extract_field re pr text lines cfg = Inr d"
    "extract_loop re pr text lines (results(n \<mapsto> d)) ps = Inr res"
    by (auto simp: p split: sum.splits)
  from Cons.IH[OF d(2)] show ?case by (auto simp: p)
qed

lemma extract_loop_field:
  "extract_loop re pr text lines results ps = Inr res \<Longrightarrow> distinct (map fst ps) \<Longrightarrow>
   (f, cfg) \<in> set ps \<Longrightarrow> \<exists>d. extract_field re pr text lines cfg = Inr d \<and> res f = Some d"
proof (induction ps arbitrary: results)
  case Nil
  then show ?case by simp
next
  case (Cons p ps)
  obtain n c where p: "p = (n, c)" by (cases p)
  from Cons.prems(1) obtain d where d: "extract_field re pr text lines c = Inr d"
    "extract_loop re pr text lines (results(n \<mapsto> d)) ps = Inr res"
    by (auto simp: p split: sum.splits)
  show ?case
  proof (cases "(f, cfg) = (n, c)")
    case True
    from Cons.prems(2) have "n \<notin> fst ` set ps" by (simp add: p)
    from extract_loop_keeps[OF d(2) this] d(1) True show ?thesis by simp
  next
    case False
    with Cons.prems(3) have "(f, cfg) \<in> set ps" by (auto simp: p)
    moreover from Cons.prems(2) have "distinct (map fst ps)" by simp
    ultimately show ?thesis using Cons.IH[OF d(2)] by blast
  qed
qed

lemma extract_loop_entry:
  "extract_loop re pr text lines results ps = Inr res \<Longrightarrow> res f = Some r \<Longrightarrow>
   results f = Some r \<or> (\<exists>cfg. (f, cfg) \<in> set ps \<and> extract_field re pr text lines cfg = Inr r)"
proof (induction ps arbitrary: results)
  case Nil
  then show ?case by simp
next
  case (Cons p ps)
  obtain n c where p: "p = (n, c)" by (cases p)
  from Cons.prems(1) obtain d where d: "extract_field re pr text lines c = Inr d"
    "extract_loop re pr text lines (results(n \<mapsto> d)) ps = Inr res"
    by (auto simp: p split: sum.splits)
  from Cons.IH[OF d(2) Cons.prems(2)] d(1) show ?case
    by (auto simp: p split: if_splits)
qed

lemma extract_loop_returns:
  "\<forall>p\<in>set ps. last_group_ok re text (snd p) \<Longrightarrow>
   \<exists>res. extract_loop re pr text lines results ps = Inr res"
proof (induction ps arbitrary: results)
  case Nil
  then show ?case by simp
next
  case (Cons p ps)
  obtain n c where p: "p = (n, c)" by (cases p)
  have "last_group_ok re text c" using Cons.prems by (simp add: p)
  then obtain d where d: "extract_field re pr text lines c = Inr d"
    using extract_field_ok by blast
  have "\<forall>p\<in>set ps. last_group_ok re text (snd p)" using Cons.prems by simp
  then have "\<exists>res. extract_loop re pr text lines (results(n \<mapsto> d)) ps = Inr res"
    by (rule Cons.IH)
  then show ?case by (simp add: p d)
qed

lemma extract_loop_raises:
  "(f, cfg) \<in> set ps \<Longrightarrow> extract_field re pr text lines cfg = Inl e \<Longrightarrow>
   \<exists>e'. extract_loop re pr text lines results ps = Inl e'"
proof (induction ps arbitrary: results)
  case Nil
  then show ?case by simp
next
  case (Cons p ps)
  obtain n c where p: "p = (n, c)" by (cases p)
  show ?case
  proof (cases "extract_field re pr text lines c")
    case (Inl a)
    then show ?thesis by (simp add: p)
  next
    case (Inr d)
    with Cons.prems have "(f, cfg) \<in> set ps" by (auto simp: p)
    from Cons.IH[OF this Cons.prems(2)] Inr show ?thesis by (simp add: p)
  qed
qed

text \<open>
  The mapping that \<open>extract\<close> returns, for a registry with the distinct keys of a
  dictionary: its keys are exactly the fields of the registry, each with the result of the
  loop body for its own field; a field whose pattern did not match and for which the
  matcher found nothing has the default result. A mapping is returned whenever every
  search is well behaved.
\<close>

lemma extract_keys_and_entries:
  assumes "distinct (map fst patterns)"
  shows "((\<forall>p\<in>set patterns. last_group_ok re text (snd p)) \<longrightarrow>
            (\<exists>results. extract_fields re pr patterns text = Inr results))
       \<and> (\<forall>results. extract_fields re pr patterns text = Inr results \<longrightarrow>
            dom results = fst ` set patterns
            \<and> (\<forall>(f, cfg)\<in>set patterns.
                  \<exists>d. results f = Some d
                     \<and> extract_field re pr text (split 10 text) cfg = Inr d)
            \<and> (\<forall>(f, cfg)\<in>set patterns.
                  re (regex cfg) text = Inr None
                  \<and> fuzzy_search pr (split 10 text) (keywords_c cfg) = None
                  \<longrightarrow> results f = Some default_result))"
proof (intro conjI allI impI)
  assume "\<forall>p\<in>set patterns. last_group_ok re text (snd p)"
  then show "\<exists>results. extract_fields re pr patterns text = Inr results"
    unfolding extract_fields_def by (rule extract_loop_returns)
next
  fix results
  assume "extract_fields re pr patterns text = Inr results"
  then have "dom results = dom (Map.empty :: pystr \<rightharpoonup> extraction) \<union> fst ` set patterns"
    unfolding extract_fields_def by (rule extract_loop_dom)
  then show "dom results = fst ` set patterns" by simp
next
  fix results
  assume r: "extract_fields re pr patterns text = Inr results"
  show "\<forall>(f, cfg)\<in>set patterns.
          \<exists>d. results f = Some d \<and> extract_field re pr text (split 10 text) cfg = Inr d"
  proof (clarify)
    fix f cfg
    assume "(f, cfg) \<in> set patterns"
    from extract_loop_field[OF r[unfolded extract_fields_def] assms this]
    show "\<exists>d. results f = Some d \<and> extract_field re pr text (split 10 text) cfg = Inr d"
      by auto
  qed
next
  fix results
  assume r: "extract_fields re pr patterns text = Inr results"
  show "\<forall>(f, cfg)\<in>set patterns.
          re (regex cfg) text = Inr None
          \<and> fuzzy_search pr (split 10 text) (keywords_c cfg) = None
          \<longrightarrow> results f = Some default_result"
  proof (clarify)
    fix f cfg
    assume m: "(f, cfg) \<in> set patterns" and n: "re (regex cfg) text = Inr None"
      and z: "fuzzy_search pr (split 10 text) (keywords_c cfg) = None"
    have "extract_field re pr text (split 10 text) cfg = Inr default_result"
      using n z by (simp add: extract_field_no_match)
    with extract_loop_field[OF r[unfolded extract_fields_def] assms m]
    show "results f = Some default_result" by auto
  qed
qed

section \<open>The properties of the specification\<close>

text \<open>
  C1, at a failing input. The registry has the fields \<open>policy_number\<close> and \<open>premium\<close>,
  and the text is \<open>Premium:\<close>. The mapping \<open>extract\<close> returns has exactly these two
  fields as its keys, and the entry of \<open>policy_number\<close>, for which nothing was found, is
  the default. For \<open>premium\<close> nothing was found either: the value captured is empty and
  the matcher returns nothing. Yet its entry is not the default, but the empty value
  with confidence 0.95 and method \<open>regex\<close>.
\<close>

theorem empty_entry_not_default:
  "(case extract_fields re_search_demo partial_ratio_demo
           [(ustr ''policy_number'',
             \<lparr>regex = ustr ''Policy Number: ([A-Z0-9]+)'', keywords_c = [ustr ''Policy Number'']\<rparr>),
            (ustr ''premium'',
             \<lparr>regex = ustr ''Premium:( *)'', keywords_c = [ustr ''Premium'']\<rparr>)]
           (ustr ''Premium:'') of
      Inl e \<Rightarrow> False
    | Inr results \<Rightarrow>
        results (ustr ''policy_number'') = Some default_result
        \<and> results (ustr ''premium'')
            = Some \<lparr>value_r = Some [], confidence = lit_0_95, method_r = MRegex\<rparr>)
   \<and> map_sum id dom (extract_fields re_search_demo partial_ratio_demo
           [(ustr ''policy_number'',
             \<lparr>regex = ustr ''Policy Number: ([A-Z0-9]+)'', keywords_c = [ustr ''Policy Number'']\<rparr>),
            (ustr ''premium'',
             \<lparr>regex = ustr ''Premium:( *)'', keywords_c = [ustr ''Premium'']\<rparr>)]
           (ustr ''Premium:''))
       = Inr {ustr ''policy_number'', ustr ''premium''}
   \<and> fuzzy_search partial_ratio_demo (split 10 (ustr ''Premium:'')) [ustr ''Premium''] = None
   \<and> \<lparr>value_r = Some [], confidence = lit_0_95, method_r = MRegex\<rparr> \<noteq> default_result"
proof -
  let ?c1 = "\<lparr>regex = ustr ''Policy Number: ([A-Z0-9]+)'', keywords_c = [ustr ''Policy Number'']\<rparr>"
  let ?c2 = "\<lparr>regex = ustr ''Premium:( *)'', keywords_c = [ustr ''Premium'']\<rparr>"
  let ?d2 = "\<lparr>value_r = Some [], confidence = lit_0_95, method_r = MRegex\<rparr>"
  have e1: "extract_field re_search_demo partial_ratio_demo (ustr ''Premium:'')
      (split 10 (ustr ''Premium:'')) ?c1 = Inr default_result" by code_simp
  have e2: "extract_field re_search_demo partial_ratio_demo (ustr ''Premium:'')
      (split 10 (ustr ''Premium:'')) ?c2 = Inr ?d2" by code_simp
  have r: "extract_fields re_search_demo partial_ratio_demo
      [(ustr ''policy_number'', ?c1), (ustr ''premium'', ?c2)] (ustr ''Premium:'')
      = Inr ((Map.empty(ustr ''policy_number'' \<mapsto> default_result))(ustr ''premium'' \<mapsto> ?d2))"
    by (simp add: extract_fields_def e1 e2)
  have ne: "ustr ''policy_number'' \<noteq> ustr ''premium''" by code_simp
  have z: "fuzzy_search partial_ratio_demo (split 10 (ustr ''Premium:'')) [ustr ''Premium''] = None"
    by code_simp
  have nd: "?d2 \<noteq> default_result" by (simp add: default_result_def)
  show ?thesis unfolding r using ne z nd by auto
qed

text \<open>
  C3, at the failing input: the pattern \<open>Premium:( *)\<close> matches the text \<open>Premium:\<close> with
  an empty capture and the matcher finds no number on the line, yet the entry of the
  field is not the default: it is the empty value with confidence 0.95 and method
  \<open>regex\<close>.
\<close>

theorem empty_capture_keeps_regex_result:
  "field_of (extract_fields re_search_demo partial_ratio_demo
       [(ustr ''premium'', \<lparr>regex = ustr ''Premium:( *)'', keywords_c = [ustr ''Premium'']\<rparr>)] (ustr ''Premium:''))
     (ustr ''premium'')
   = Inr (Some \<lparr>value_r = Some [], confidence = lit_0_95, method_r = MRegex\<rparr>)
   \<and> fuzzy_search partial_ratio_demo (split 10 (ustr ''Premium:'')) [ustr ''Premium''] = None
   \<and> \<lparr>value_r = Some [], confidence = lit_0_95, method_r = MRegex\<rparr> \<noteq> default_result"
proof (intro conjI)
  show "field_of (extract_fields re_search_demo partial_ratio_demo
       [(ustr ''premium'', \<lparr>regex = ustr ''Premium:( *)'', keywords_c = [ustr ''Premium'']\<rparr>)] (ustr ''Premium:''))
     (ustr ''premium'')
   = Inr (Some \<lparr>value_r = Some [], confidence = lit_0_95, method_r = MRegex\<rparr>)"
    by code_simp
  show "fuzzy_search partial_ratio_demo (split 10 (ustr ''Premium:'')) [ustr ''Premium''] = None"
    by code_simp
  show "\<lparr>value_r = Some [], confidence = lit_0_95, method_r = MRegex\<rparr> \<noteq> default_result"
    by (simp add: default_result_def)
qed

text \<open>
  C4. The matcher arbitrates once over the candidates of all (line, keyword) pairs, in
  the order the pairs are met: without candidates it returns nothing; otherwise it
  returns the candidate whose confidence is strictly greater than that of every
  candidate before it and at least that of every candidate at all, so on equal
  confidence the earliest one is kept. The confidence of similarity 100 is strictly
  greater than that of similarity 90, and of two candidates with these scores, in either
  order, the value of the one with 100 is returned.
\<close>

theorem fuzzy_search_arbitration:
  "(candidates pr lines kws = [] \<longrightarrow> fuzzy_search pr lines kws = None)
   \<and> (candidates pr lines kws \<noteq> [] \<longrightarrow>
        (\<exists>i<length (candidates pr lines kws).
           fuzzy_search pr lines kws = Some (as_result (candidates pr lines kws ! i))
           \<and> (\<forall>j<i. cand_conf (candidates pr lines kws ! j)
                        < cand_conf (candidates pr lines kws ! i))
           \<and> (\<forall>j<length (candidates pr lines kws).
                 cand_conf (candidates pr lines kws ! j)
                   \<le> cand_conf (candidates pr lines kws ! i))))
   \<and> calculate ''fuzzy'' 90 < calculate ''fuzzy'' 100
   \<and> (candidates pr lines kws = [(v1, c1, 90), (v2, c2, 100)]
        \<or> candidates pr lines kws = [(v2, c2, 100), (v1, c1, 90)] \<longrightarrow>
        fuzzy_search pr lines kws
          = Some \<lparr>value_r = Some v2, confidence = lit_0_85, method_r = MFuzzy 100\<rparr>)"
proof (intro conjI impI)
  assume "candidates pr lines kws = [(v1, c1, 90), (v2, c2, 100)]
        \<or> candidates pr lines kws = [(v2, c2, 100), (v1, c1, 90)]"
  then show "fuzzy_search pr lines kws
          = Some \<lparr>value_r = Some v2, confidence = lit_0_85, method_r = MFuzzy 100\<rparr>"
    by (rule two_candidates_90_100)
next
  assume "candidates pr lines kws = []"
  then show "fuzzy_search pr lines kws = None" by (rule fuzzy_search_no_candidates)
next
  assume "candidates pr lines kws \<noteq> []"
  then show "\<exists>i<length (candidates pr lines kws).
           fuzzy_search pr lines kws = Some (as_result (candidates pr lines kws ! i))
           \<and> (\<forall>j<i. cand_conf (candidates pr lines kws ! j)
                        < cand_conf (candidates pr lines kws ! i))
           \<and> (\<forall>j<length (candidates pr lines kws).
                 cand_conf (candidates pr lines kws ! j)
                   \<le> cand_conf (candidates pr lines kws ! i))"
    by (rule fuzzy_search_first_max)
next
  show "calculate ''fuzzy'' 90 < calculate ''fuzzy'' 100" by code_simp
qed

theorem fuzzy_search_arbitration_witness:
  "candidates partial_ratio_demo [ustr ''Sum Asured 100'', ustr ''Sum Assured 200'', ustr ''Sum Assured 300'']
      [ustr ''Sum Assured'']
     = [(ustr ''100'', calculate ''fuzzy'' 90, 90), (ustr ''200'', lit_0_85, 100), (ustr ''300'', lit_0_85, 100)]
   \<and> fuzzy_search partial_ratio_demo [ustr ''Sum Asured 100'', ustr ''Sum Assured 200'', ustr ''Sum Assured 300'']
        [ustr ''Sum Assured'']
     = Some \<lparr>value_r = Some (ustr ''200''), confidence = lit_0_85, method_r = MFuzzy 100\<rparr>
   \<and> (\<exists>i<length (candidates partial_ratio_demo
                     [ustr ''Sum Asured 100'', ustr ''Sum Assured 200'', ustr ''Sum Assured 300''] [ustr ''Sum Assured'']).
         fuzzy_search partial_ratio_demo [ustr ''Sum Asured 100'', ustr ''Sum Assured 200'', ustr ''Sum Assured 300'']
            [ustr ''Sum Assured'']
           = Some (as_result (candidates partial_ratio_demo
                [ustr ''Sum Asured 100'', ustr ''Sum Assured 200'', ustr ''Sum Assured 300''] [ustr ''Sum Assured''] ! i)))"
proof -
  let ?ls = "[ustr ''Sum Asured 100'', ustr ''Sum Assured 200'', ustr ''Sum Assured 300'']"
  have c: "candidates partial_ratio_demo ?ls [ustr ''Sum Assured'']
             = [(ustr ''100'', calculate ''fuzzy'' 90, 90), (ustr ''200'', lit_0_85, 100), (ustr ''300'', lit_0_85, 100)]"
    by code_simp
  have f: "fuzzy_search partial_ratio_demo ?ls [ustr ''Sum Assured'']
             = Some \<lparr>value_r = Some (ustr ''200''), confidence = lit_0_85, method_r = MFuzzy 100\<rparr>"
    by code_simp
  have ne: "candidates partial_ratio_demo ?ls [ustr ''Sum Assured''] \<noteq> []" by (simp add: c)
  from fuzzy_search_arbitration[of partial_ratio_demo ?ls "[ustr ''Sum Assured'']"] ne
  have "\<exists>i<length (candidates partial_ratio_demo ?ls [ustr ''Sum Assured'']).
          fuzzy_search partial_ratio_demo ?ls [ustr ''Sum Assured'']
            = Some (as_result (candidates partial_ratio_demo ?ls [ustr ''Sum Assured''] ! i))"
    by blast
  with c f show ?thesis by blast
qed

text \<open>
  C5. A pair whose similarity score is below 85 leaves the best candidate as it was, and
  so does every keyword on a line that is empty or only whitespace; a result of the
  matcher records the similarity score of a keyword and a non-blank line of its
  arguments, and that score is at least 85.
\<close>

theorem fuzzy_search_threshold:
  "(pr (lower kw) (lower line) < 85 \<longrightarrow> fuzzy_keyword pr line b kw = b)
   \<and> (strip blank = [] \<longrightarrow> fuzzy_line pr kws b blank = b)
   \<and> (fuzzy_search pr lines kws = Some r \<longrightarrow>
        (\<exists>l k. l \<in> set lines \<and> k \<in> set kws \<and> strip l \<noteq> []
           \<and> method_r r = MFuzzy (pr (lower k) (lower l)) \<and> 85 \<le> pr (lower k) (lower l)))"
proof (intro conjI impI)
  assume "pr (lower kw) (lower line) < 85"
  then show "fuzzy_keyword pr line b kw = b" by (simp add: fuzzy_keyword_def Let_def)
next
  assume "strip blank = []"
  then show "fuzzy_line pr kws b blank = b" by (simp add: fuzzy_line_def)
next
  assume "fuzzy_search pr lines kws = Some r"
  then obtain c where c: "c \<in> set (candidates pr lines kws)" "r = as_result c"
    using fuzzy_search_Some_candidate by blast
  from candidates_elem[OF c(1)] obtain l k where
    "l \<in> set lines" "k \<in> set kws" "strip l \<noteq> []" "85 \<le> pr (lower k) (lower l)"
    "c = (last (valid_values l), calculate ''fuzzy'' (pr (lower k) (lower l)), pr (lower k) (lower l))"
    by blast
  then show "\<exists>l k. l \<in> set lines \<and> k \<in> set kws \<and> strip l \<noteq> []
           \<and> method_r r = MFuzzy (pr (lower k) (lower l)) \<and> 85 \<le> pr (lower k) (lower l)"
    using c(2) by (auto simp: as_result_def)
qed

theorem fuzzy_search_threshold_witness:
  "partial_ratio_demo (lower (ustr ''Premium'')) (lower (ustr ''Total due 500'')) < 85
   \<and> fuzzy_keyword partial_ratio_demo (ustr ''Total due 500'') best_init (ustr ''Premium'') = best_init
   \<and> strip (ustr ''   '') = []
   \<and> fuzzy_line partial_ratio_demo [ustr ''Premium'', ustr ''Sum Assured''] best_init (ustr ''   '') = best_init
   \<and> fuzzy_search partial_ratio_demo [ustr ''Sum Asured 100'', ustr ''   ''] [ustr ''Premium'', ustr ''Sum Assured'']
       = Some \<lparr>value_r = Some (ustr ''100''), confidence = calculate ''fuzzy'' 90, method_r = MFuzzy 90\<rparr>
   \<and> (\<exists>l k. l \<in> set [ustr ''Sum Asured 100'', ustr ''   ''] \<and> k \<in> set [ustr ''Premium'', ustr ''Sum Assured'']
         \<and> strip l \<noteq> []
         \<and> MFuzzy 90 = MFuzzy (partial_ratio_demo (lower k) (lower l))
         \<and> 85 \<le> partial_ratio_demo (lower k) (lower l))"
proof -
  have h1: "partial_ratio_demo (lower (ustr ''Premium'')) (lower (ustr ''Total due 500'')) < 85" by code_simp
  have h2: "strip (ustr ''   '') = []" by code_simp
  have h3: "fuzzy_search partial_ratio_demo [ustr ''Sum Asured 100'', ustr ''   ''] [ustr ''Premium'', ustr ''Sum Assured'']
       = Some \<lparr>value_r = Some (ustr ''100''), confidence = calculate ''fuzzy'' 90, method_r = MFuzzy 90\<rparr>"
    by code_simp
  note t = fuzzy_search_threshold[of partial_ratio_demo "ustr ''Premium''" "ustr ''Total due 500''"
      best_init "ustr ''   ''" "[ustr ''Premium'', ustr ''Sum Assured'']" "[ustr ''Sum Asured 100'', ustr ''   '']"
      "\<lparr>value_r = Some (ustr ''100''), confidence = calculate ''fuzzy'' 90, method_r = MFuzzy 90\<rparr>"]
  from t h1 have a: "fuzzy_keyword partial_ratio_demo (ustr ''Total due 500'') best_init (ustr ''Premium'') = best_init"
    by blast
  from t h2 have b: "fuzzy_line partial_ratio_demo [ustr ''Premium'', ustr ''Sum Assured''] best_init (ustr ''   '') = best_init"
    by blast
  from t h3 have c: "\<exists>l k. l \<in> set [ustr ''Sum Asured 100'', ustr ''   ''] \<and> k \<in> set [ustr ''Premium'', ustr ''Sum Assured'']
         \<and> strip l \<noteq> []
         \<and> MFuzzy 90 = MFuzzy (partial_ratio_demo (lower k) (lower l))
         \<and> 85 \<le> partial_ratio_demo (lower k) (lower l)"
    by simp
  from h1 a h2 b h3 c show ?thesis by blast
qed

text \<open>
  C6. The numeric tokens of a line that count are the groups \<open>findall\<close> returns that
  hold a digit, in any script. An accepted pair on a line without such a token leaves
  the best candidate as it was; whenever a pair changes the best candidate, the new
  value is the last such token of its line; and the value the matcher returns is the
  last such token of a non-blank line whose similarity with one of the keywords is at
  least 85. (The example below has a line with a date, a lone comma, an amount after the
  currency marker and an amount in Devanagari digits, U+096B U+0966 U+0966.)
\<close>

theorem fuzzy_search_last_token:
  "valid_values line = filter (list_ex is_digit) (findall_numbers line)
   \<and> (valid_values line = [] \<longrightarrow> fuzzy_keyword pr line b kw = b)
   \<and> (fuzzy_keyword pr line b kw \<noteq> b \<longrightarrow>
        best_candidate (fuzzy_keyword pr line b kw) = Some (last (valid_values line)))
   \<and> (fuzzy_search pr lines kws = Some r \<longrightarrow>
        (\<exists>l k. l \<in> set lines \<and> k \<in> set kws \<and> 85 \<le> pr (lower k) (lower l)
           \<and> valid_values l \<noteq> [] \<and> value_r r = Some (last (valid_values l))))"
proof (intro conjI impI)
  show "valid_values line = filter (list_ex is_digit) (findall_numbers line)"
    by (rule valid_values_digits)
next
  assume "valid_values line = []"
  then show "fuzzy_keyword pr line b kw = b" by (simp add: fuzzy_keyword_def Let_def)
next
  assume "fuzzy_keyword pr line b kw \<noteq> b"
  then show "best_candidate (fuzzy_keyword pr line b kw) = Some (last (valid_values line))"
    by (simp add: fuzzy_keyword_def Let_def split: if_splits)
next
  assume "fuzzy_search pr lines kws = Some r"
  then obtain c where c: "c \<in> set (candidates pr lines kws)" "r = as_result c"
    using fuzzy_search_Some_candidate by blast
  from candidates_elem[OF c(1)] obtain l k where
    "l \<in> set lines" "k \<in> set kws" "85 \<le> pr (lower k) (lower l)" "valid_values l \<noteq> []"
    "c = (last (valid_values l), calculate ''fuzzy'' (pr (lower k) (lower l)), pr (lower k) (lower l))"
    by blast
  then show "\<exists>l k. l \<in> set lines \<and> k \<in> set kws \<and> 85 \<le> pr (lower k) (lower l)
           \<and> valid_values l \<noteq> [] \<and> value_r r = Some (last (valid_values l))"
    using c(2) by (auto simp: as_result_def)
qed

theorem fuzzy_search_last_token_witness:
  "findall_numbers (ustr ''Premium due 12 Mar, Rs. 25,000.00 or '' @ [2411, 2406, 2406])
     = [ustr ''12'', ustr '','', ustr ''25,000.00'', [2411, 2406, 2406]]
   \<and> valid_values (ustr ''Premium due 12 Mar, Rs. 25,000.00 or '' @ [2411, 2406, 2406])
     = [ustr ''12'', ustr ''25,000.00'', [2411, 2406, 2406]]
   \<and> valid_values (ustr ''Premium:'') = []
   \<and> fuzzy_keyword partial_ratio_demo (ustr ''Premium:'') best_init (ustr ''Premium'') = best_init
   \<and> fuzzy_keyword partial_ratio_demo
        (ustr ''Premium due 12 Mar, Rs. 25,000.00 or '' @ [2411, 2406, 2406]) best_init (ustr ''Premium'')
        \<noteq> best_init
   \<and> best_candidate
        (fuzzy_keyword partial_ratio_demo
           (ustr ''Premium due 12 Mar, Rs. 25,000.00 or '' @ [2411, 2406, 2406]) best_init (ustr ''Premium''))
       = Some [2411, 2406, 2406]
   \<and> fuzzy_search partial_ratio_demo
        [ustr ''Premium due 12 Mar, Rs. 25,000.00 or '' @ [2411, 2406, 2406]] [ustr ''Premium'']
       = Some \<lparr>value_r = Some [2411, 2406, 2406], confidence = lit_0_85, method_r = MFuzzy 100\<rparr>"
proof -
  let ?l = "ustr ''Premium due 12 Mar, Rs. 25,000.00 or '' @ [2411, 2406, 2406]"
  let ?r = "\<lparr>value_r = Some [2411, 2406, 2406], confidence = lit_0_85, method_r = MFuzzy 100\<rparr>"
  have f: "findall_numbers ?l = [ustr ''12'', ustr '','', ustr ''25,000.00'', [2411, 2406, 2406]]"
    by code_simp
  have h1: "valid_values (ustr ''Premium:'') = []" by code_simp
  have h2: "fuzzy_keyword partial_ratio_demo ?l best_init (ustr ''Premium'') \<noteq> best_init" by code_simp
  have h3: "fuzzy_search partial_ratio_demo [?l] [ustr ''Premium''] = Some ?r" by code_simp
  note t1 = fuzzy_search_last_token[of "ustr ''Premium:''" partial_ratio_demo best_init "ustr ''Premium''"
      "[?l]" "[ustr ''Premium'']" ?r]
  note t2 = fuzzy_search_last_token[of ?l partial_ratio_demo best_init "ustr ''Premium''"
      "[?l]" "[ustr ''Premium'']" ?r]
  from t1 h1 have a: "fuzzy_keyword partial_ratio_demo (ustr ''Premium:'') best_init (ustr ''Premium'') = best_init"
    by blast
  from t2 have v: "valid_values ?l = filter (list_ex is_digit) (findall_numbers ?l)" by blast
  have v': "valid_values ?l = [ustr ''12'', ustr ''25,000.00'', [2411, 2406, 2406]]"
    unfolding v f by code_simp
  from t2 h2 have "best_candidate (fuzzy_keyword partial_ratio_demo ?l best_init (ustr ''Premium''))
      = Some (last (valid_values ?l))" by blast
  then have b: "best_candidate (fuzzy_keyword partial_ratio_demo ?l best_init (ustr ''Premium''))
      = Some [2411, 2406, 2406]" by (simp add: v')
  from f v' h1 a h2 b h3 show ?thesis by blast
qed

text \<open>
  C7. When the pattern of a field does not match, or matches with a last group that is
  empty once stripped, \<open>extract\<close> runs the matcher on the lines of the text with the
  keywords of that field, and a candidate the matcher returns is the result of the
  field, in the loop body and in the mapping \<open>extract\<close> returns.
\<close>

theorem fallback_to_matcher:
  assumes "distinct (map fst patterns)" and "(f, cfg) \<in> set patterns"
    and "re (regex cfg) text = Inr None
         \<or> (\<exists>groups g. re (regex cfg) text = Inr (Some groups) \<and> groups \<noteq> []
                \<and> last groups = Some g \<and> strip g = [])"
    and "fuzzy_search pr (split 10 text) (keywords_c cfg) = Some c"
  shows "extract_field re pr text (split 10 text) cfg = Inr c
       \<and> (\<forall>results. extract_fields re pr patterns text = Inr results \<longrightarrow> results f = Some c)"
proof -
  have e: "extract_field re pr text (split 10 text) cfg = Inr c"
    using assms(3)
  proof
    assume "re (regex cfg) text = Inr None"
    then show ?thesis using assms(4) by (simp add: extract_field_no_match)
  next
    assume "\<exists>groups g. re (regex cfg) text = Inr (Some groups) \<and> groups \<noteq> []
                \<and> last groups = Some g \<and> strip g = []"
    then obtain groups g where "re (regex cfg) text = Inr (Some groups)" "groups \<noteq> []"
      "last groups = Some g" "strip g = []" by blast
    then show ?thesis using assms(4) by (simp add: extract_field_empty_capture)
  qed
  have "results f = Some c" if "extract_fields re pr patterns text = Inr results" for results
    using extract_loop_field[OF that[unfolded extract_fields_def] assms(1,2)] e by auto
  with e show ?thesis by blast
qed

theorem fallback_to_matcher_witness:
  "distinct (map fst [(ustr ''premium'', \<lparr>regex = ustr ''Premium:( *)'', keywords_c = [ustr ''Premium'']\<rparr>)])
   \<and> re_search_demo (ustr ''Premium:( *)'') (ustr ''Premium: Rs. 500'') = Inr (Some [Some (ustr '' '')])
   \<and> strip (ustr '' '') = []
   \<and> fuzzy_search partial_ratio_demo (split 10 (ustr ''Premium: Rs. 500'')) [ustr ''Premium'']
       = Some \<lparr>value_r = Some (ustr ''500''), confidence = lit_0_85, method_r = MFuzzy 100\<rparr>
   \<and> field_of (extract_fields re_search_demo partial_ratio_demo
         [(ustr ''premium'', \<lparr>regex = ustr ''Premium:( *)'', keywords_c = [ustr ''Premium'']\<rparr>)] (ustr ''Premium: Rs. 500''))
        (ustr ''premium'')
       = Inr (Some \<lparr>value_r = Some (ustr ''500''), confidence = lit_0_85, method_r = MFuzzy 100\<rparr>)"
proof -
  let ?cfg = "\<lparr>regex = ustr ''Premium:( *)'', keywords_c = [ustr ''Premium'']\<rparr>"
  let ?c = "\<lparr>value_r = Some (ustr ''500''), confidence = lit_0_85, method_r = MFuzzy 100\<rparr>"
  have d: "distinct (map fst [(ustr ''premium'', ?cfg)])" by simp
  have m: "(ustr ''premium'', ?cfg) \<in> set [(ustr ''premium'', ?cfg)]" by simp
  have s: "re_search_demo (ustr ''Premium:( *)'') (ustr ''Premium: Rs. 500'') = Inr (Some [Some (ustr '' '')])"
    by code_simp
  have st: "strip (ustr '' '') = []" by code_simp
  have g: "re_search_demo (regex ?cfg) (ustr ''Premium: Rs. 500'') = Inr None
         \<or> (\<exists>groups g. re_search_demo (regex ?cfg) (ustr ''Premium: Rs. 500'') = Inr (Some groups)
                \<and> groups \<noteq> [] \<and> last groups = Some g \<and> strip g = [])"
    using s st by simp
  have z: "fuzzy_search partial_ratio_demo (split 10 (ustr ''Premium: Rs. 500'')) (keywords_c ?cfg)
       = Some ?c" by code_simp
  have ok: "\<forall>p\<in>set [(ustr ''premium'', ?cfg)]. last_group_ok re_search_demo (ustr ''Premium: Rs. 500'') (snd p)"
    by (simp add: last_group_ok_def s)
  from extract_loop_returns[OF ok] obtain results where
    r: "extract_fields re_search_demo partial_ratio_demo [(ustr ''premium'', ?cfg)] (ustr ''Premium: Rs. 500'')
        = Inr results"
    unfolding extract_fields_def by blast
  note t = fallback_to_matcher[of "[(ustr ''premium'', ?cfg)]" "ustr ''premium''" ?cfg re_search_demo
      "ustr ''Premium: Rs. 500''" partial_ratio_demo ?c]
  from t[OF d m g z] r have "results (ustr ''premium'') = Some ?c" by blast
  with r have "field_of (extract_fields re_search_demo partial_ratio_demo [(ustr ''premium'', ?cfg)]
       (ustr ''Premium: Rs. 500'')) (ustr ''premium'') = Inr (Some ?c)"
    by (simp add: field_of_def)
  with d s st z show ?thesis by simp
qed

text \<open>
  C8, as the code has it. The claim fails: with an empty keyword list nothing is raised
  and the field gets the default result, and a pattern without groups that does not
  match raises nothing either (the field falls back to the matcher).
\<close>

theorem broken_config_not_raised:
  "field_of (extract_fields re_search_demo partial_ratio_demo
       [(ustr ''premium'', \<lparr>regex = ustr ''Premium: ([0-9]+)'', keywords_c = []\<rparr>)] (ustr ''Total due 500''))
     (ustr ''premium'') = Inr (Some default_result)
   \<and> field_of (extract_fields re_search_demo partial_ratio_demo
       [(ustr ''policy'', \<lparr>regex = ustr ''Policy'', keywords_c = [ustr ''Premium'']\<rparr>)] (ustr ''Premium: Rs. 500''))
     (ustr ''policy'') = Inr (Some \<lparr>value_r = Some (ustr ''500''), confidence = lit_0_85, method_r = MFuzzy 100\<rparr>)"
  by code_simp

text \<open>
  C8, amended. A field whose pattern matches the text without any capturing group
  raises \<open>IndexError\<close>, and then \<open>extract\<close> returns no mapping. A pattern that does not
  match raises nothing, whatever its groups: the field falls back to the matcher. An
  empty keyword list raises nothing: the matcher returns nothing, and a field whose
  pattern did not match gets the default result.
\<close>

theorem broken_config_amended:
  "(re (regex cfg) text = Inr (Some []) \<longrightarrow>
      extract_field re pr text lines cfg = Inl IndexError)
   \<and> ((f, cfg) \<in> set patterns \<and> re (regex cfg) text = Inr (Some []) \<longrightarrow>
        (\<exists>e. extract_fields re pr patterns text = Inl e))
   \<and> (re (regex cfg') text = Inr None \<longrightarrow>
        extract_field re pr text lines cfg'
          = (case fuzzy_search pr lines (keywords_c cfg') of
               Some c \<Rightarrow> Inr c | None \<Rightarrow> Inr default_result))
   \<and> fuzzy_search pr lines [] = None
   \<and> (re (regex cfg') text = Inr None \<and> keywords_c cfg' = [] \<longrightarrow>
        extract_field re pr text lines cfg' = Inr default_result)"
proof (intro conjI impI)
  assume "re (regex cfg) text = Inr (Some [])"
  then show "extract_field re pr text lines cfg = Inl IndexError"
    by (rule extract_field_no_groups)
next
  assume a: "(f, cfg) \<in> set patterns \<and> re (regex cfg) text = Inr (Some [])"
  then have "extract_field re pr text (split 10 text) cfg = Inl IndexError"
    by (simp add: extract_field_no_groups)
  with a show "\<exists>e. extract_fields re pr patterns text = Inl e"
    unfolding extract_fields_def using extract_loop_raises by blast
next
  assume "re (regex cfg') text = Inr None"
  then show "extract_field re pr text lines cfg'
          = (case fuzzy_search pr lines (keywords_c cfg') of
               Some c \<Rightarrow> Inr c | None \<Rightarrow> Inr default_result)"
    by (rule extract_field_no_match)
next
  have "candidates pr lines [] = []" by (auto simp: candidates_def line_candidates_def)
  then show e: "fuzzy_search pr lines [] = None" by (rule fuzzy_search_no_candidates)
  assume "re (regex cfg') text = Inr None \<and> keywords_c cfg' = []"
  then show "extract_field re pr text lines cfg' = Inr default_result"
    using e by (simp add: extract_field_no_match)
qed

theorem broken_config_amended_witness:
  "(ustr ''policy'', \<lparr>regex = ustr ''Policy'', keywords_c = [ustr ''Policy'']\<rparr>)
      \<in> set [(ustr ''policy'', \<lparr>regex = ustr ''Policy'', keywords_c = [ustr ''Policy'']\<rparr>)]
   \<and> re_search_demo (ustr ''Policy'') (ustr ''Policy: 7'') = Inr (Some [])
   \<and> extract_field re_search_demo partial_ratio_demo (ustr ''Policy: 7'') [ustr ''Policy: 7'']
        \<lparr>regex = ustr ''Policy'', keywords_c = [ustr ''Policy'']\<rparr> = Inl IndexError
   \<and> (\<exists>e. extract_fields re_search_demo partial_ratio_demo
            [(ustr ''policy'', \<lparr>regex = ustr ''Policy'', keywords_c = [ustr ''Policy'']\<rparr>)] (ustr ''Policy: 7'') = Inl e)
   \<and> re_search_demo (ustr ''Premium: ([0-9]+)'') (ustr ''Policy: 7'') = Inr None
   \<and> extract_field re_search_demo partial_ratio_demo (ustr ''Policy: 7'') [ustr ''Policy: 7'']
        \<lparr>regex = ustr ''Premium: ([0-9]+)'', keywords_c = []\<rparr> = Inr default_result"
proof -
  let ?cfg = "\<lparr>regex = ustr ''Policy'', keywords_c = [ustr ''Policy'']\<rparr>"
  let ?cfg' = "\<lparr>regex = ustr ''Premium: ([0-9]+)'', keywords_c = []\<rparr>"
  have m: "(ustr ''policy'', ?cfg) \<in> set [(ustr ''policy'', ?cfg)]" by simp
  have s: "re_search_demo (ustr ''Policy'') (ustr ''Policy: 7'') = Inr (Some [])"
    by code_simp
  have n: "re_search_demo (ustr ''Premium: ([0-9]+)'') (ustr ''Policy: 7'') = Inr None"
    by code_simp
  note t = broken_config_amended[of re_search_demo ?cfg "ustr ''Policy: 7''" partial_ratio_demo
      "[ustr ''Policy: 7'']" "ustr ''policy''" "[(ustr ''policy'', ?cfg)]" ?cfg']
  from t s have a: "extract_field re_search_demo partial_ratio_demo (ustr ''Policy: 7'') [ustr ''Policy: 7'']
      ?cfg = Inl IndexError" by simp
  from t m s have b: "\<exists>e. extract_fields re_search_demo partial_ratio_demo
      [(ustr ''policy'', ?cfg)] (ustr ''Policy: 7'') = Inl e" by simp
  from t n have c: "extract_field re_search_demo partial_ratio_demo (ustr ''Policy: 7'') [ustr ''Policy: 7'']
      ?cfg' = Inr default_result" by simp
  from m s a b n c show ?thesis by blast
qed

text \<open>
  C9. Where the similarity scores are at most 100, as those of \<open>partial_ratio\<close> are, a
  result of the matcher has the confidence \<open>calculate("fuzzy", s)\<close> of the score \<open>s\<close> in
  its method, which lies between 0.72 and 0.85 and strictly below the confidence of a
  regular expression match; in the mapping \<open>extract\<close> returns, the same holds of every
  entry whose method is fuzzy, and every entry whose method is \<open>regex\<close> has confidence
  0.95.
\<close>

theorem fuzzy_confidence_bounds:
  assumes "\<forall>s1 s2. pr s1 s2 \<le> 100"
  shows "(fuzzy_search pr lines kws = Some r \<longrightarrow>
            (\<exists>s. method_r r = MFuzzy s \<and> confidence r = calculate ''fuzzy'' s
               \<and> confidence r = py_round (fmul (fdiv s 100) lit_0_85) 2
               \<and> lit_0_72 \<le> confidence r \<and> confidence r \<le> lit_0_85
               \<and> confidence r < calculate ''regex'' q))
       \<and> (extract_fields re pr patterns text = Inr results \<and> results f = Some d \<longrightarrow>
            (\<forall>s. method_r d = MFuzzy s \<longrightarrow>
                 confidence d = calculate ''fuzzy'' s
                 \<and> lit_0_72 \<le> confidence d \<and> confidence d \<le> lit_0_85 \<and> confidence d < lit_0_95)
            \<and> (method_r d = MRegex \<longrightarrow> confidence d = lit_0_95))"
proof -
  have fz: "\<exists>s. method_r x = MFuzzy s \<and> confidence x = calculate ''fuzzy'' s
               \<and> lit_0_72 \<le> confidence x \<and> confidence x \<le> lit_0_85 \<and> confidence x < lit_0_95"
    if "fuzzy_search pr ls ks = Some x" for ls ks x
  proof -
    from that obtain c where c: "c \<in> set (candidates pr ls ks)" "x = as_result c"
      using fuzzy_search_Some_candidate by blast
    from candidates_elem[OF c(1)] obtain l k where
      lo: "85 \<le> pr (lower k) (lower l)"
      and ce: "c = (last (valid_values l), calculate ''fuzzy'' (pr (lower k) (lower l)),
                   pr (lower k) (lower l))"
      by blast
    let ?s = "pr (lower k) (lower l)"
    have hi: "?s \<le> 100" using assms by simp
    have "calculate ''fuzzy'' 85 \<le> calculate ''fuzzy'' ?s" using lo by (rule calculate_fuzzy_mono)
    then have b1: "lit_0_72 \<le> calculate ''fuzzy'' ?s" by (simp add: calculate_fuzzy_85)
    have "calculate ''fuzzy'' ?s \<le> calculate ''fuzzy'' 100" using hi by (rule calculate_fuzzy_mono)
    then have b2: "calculate ''fuzzy'' ?s \<le> lit_0_85" by (simp add: calculate_fuzzy_100)
    from b2 lit_0_85_less_0_95 have b3: "calculate ''fuzzy'' ?s < lit_0_95" by simp
    from b1 b2 b3 show ?thesis by (simp add: c(2) ce as_result_def)
  qed
  have fm: "calculate ''fuzzy'' s = py_round (fmul (fdiv s 100) lit_0_85) 2" for s
    by (simp add: calculate_def)
  have part1: "fuzzy_search pr lines kws = Some r \<longrightarrow>
            (\<exists>s. method_r r = MFuzzy s \<and> confidence r = calculate ''fuzzy'' s
               \<and> confidence r = py_round (fmul (fdiv s 100) lit_0_85) 2
               \<and> lit_0_72 \<le> confidence r \<and> confidence r \<le> lit_0_85
               \<and> confidence r < calculate ''regex'' q)"
    using fz[of lines kws r] fm by (auto simp: calculate_regex)
  have part2: "(\<forall>s. method_r d = MFuzzy s \<longrightarrow>
                 confidence d = calculate ''fuzzy'' s
                 \<and> lit_0_72 \<le> confidence d \<and> confidence d \<le> lit_0_85 \<and> confidence d < lit_0_95)
            \<and> (method_r d = MRegex \<longrightarrow> confidence d = lit_0_95)"
    if r: "extract_fields re pr patterns text = Inr results" and d: "results f = Some d"
  proof -
    from extract_loop_entry[OF r[unfolded extract_fields_def] d]
    obtain cfg where "extract_field re pr text (split 10 text) cfg = Inr d" by auto
    from extract_field_shape[OF this]
    consider "d = default_result"
      | g where "d = \<lparr>value_r = Some (strip g), confidence = lit_0_95, method_r = MRegex\<rparr>"
      | "fuzzy_search pr (split 10 text) (keywords_c cfg) = Some d" by blast
    then show ?thesis
    proof cases
      case 1
      then show ?thesis by (simp add: default_result_def)
    next
      case 2
      then show ?thesis by simp
    next
      case 3
      from fz[OF 3] show ?thesis by auto
    qed
  qed
  from part1 part2 show ?thesis by blast
qed

theorem fuzzy_confidence_bounds_witness:
  "(\<forall>s1 s2. partial_ratio_demo s1 s2 \<le> 100)
   \<and> fuzzy_search partial_ratio_demo [ustr ''Sum Asured 100''] [ustr ''Sum Assured'']
       = Some \<lparr>value_r = Some (ustr ''100''), confidence = calculate ''fuzzy'' 90, method_r = MFuzzy 90\<rparr>
   \<and> lit_0_72 \<le> calculate ''fuzzy'' 90 \<and> calculate ''fuzzy'' 90 \<le> lit_0_85
   \<and> calculate ''fuzzy'' 90 < calculate ''regex'' 100"
proof -
  let ?r = "\<lparr>value_r = Some (ustr ''100''), confidence = calculate ''fuzzy'' 90, method_r = MFuzzy 90\<rparr>"
  have b: "\<forall>s1 s2. partial_ratio_demo s1 s2 \<le> 100" by (simp add: partial_ratio_demo_def)
  have z: "fuzzy_search partial_ratio_demo [ustr ''Sum Asured 100''] [ustr ''Sum Assured''] = Some ?r"
    by code_simp
  note t = fuzzy_confidence_bounds[OF b, of "[ustr ''Sum Asured 100'']" "[ustr ''Sum Assured'']" ?r 100]
  from t z have "lit_0_72 \<le> confidence ?r \<and> confidence ?r \<le> lit_0_85
      \<and> confidence ?r < calculate ''regex'' 100" by blast
  then have "lit_0_72 \<le> calculate ''fuzzy'' 90 \<and> calculate ''fuzzy'' 90 \<le> lit_0_85
      \<and> calculate ''fuzzy'' 90 < calculate ''regex'' 100" by simp
  with b z show ?thesis by blast
qed

text \<open>
  C10. \<open>extract\<close> is not total: when the pattern of some field matches and its last
  group took no part in the match, the capture is \<open>None\<close>, stripping it raises
  \<open>AttributeError\<close> in the loop body of that field, and \<open>extract\<close> ends with an exception
  instead of a mapping.
\<close>

theorem unmatched_last_group_raises:
  assumes "(f, cfg) \<in> set patterns" and "re (regex cfg) text = Inr (Some groups)"
    and "groups \<noteq> []" and "last groups = None"
  shows "extract_field re pr text (split 10 text) cfg = Inl AttributeError
       \<and> (\<exists>e. extract_fields re pr patterns text = Inl e)"
proof -
  have e: "extract_field re pr text (split 10 text) cfg = Inl AttributeError"
    using assms(2-4) by (rule extract_field_unmatched_group)
  from extract_loop_raises[OF assms(1) e]
  have "\<exists>e. extract_fields re pr patterns text = Inl e" by (simp add: extract_fields_def)
  with e show ?thesis by blast
qed

theorem unmatched_last_group_raises_witness:
  "(ustr ''policy'', \<lparr>regex = ustr ''(Policy)( Number)?'', keywords_c = [ustr ''Policy'']\<rparr>)
      \<in> set [(ustr ''policy'', \<lparr>regex = ustr ''(Policy)( Number)?'', keywords_c = [ustr ''Policy'']\<rparr>)]
   \<and> re_search_demo (ustr ''(Policy)( Number)?'') (ustr ''Policy: 7'') = Inr (Some [Some (ustr ''Policy''), None])
   \<and> extract_field re_search_demo partial_ratio_demo (ustr ''Policy: 7'') (split 10 (ustr ''Policy: 7''))
        \<lparr>regex = ustr ''(Policy)( Number)?'', keywords_c = [ustr ''Policy'']\<rparr> = Inl AttributeError
   \<and> (\<exists>e. extract_fields re_search_demo partial_ratio_demo
            [(ustr ''policy'', \<lparr>regex = ustr ''(Policy)( Number)?'', keywords_c = [ustr ''Policy'']\<rparr>)]
            (ustr ''Policy: 7'') = Inl e)"
proof -
  let ?cfg = "\<lparr>regex = ustr ''(Policy)( Number)?'', keywords_c = [ustr ''Policy'']\<rparr>"
  have m: "(ustr ''policy'', ?cfg) \<in> set [(ustr ''policy'', ?cfg)]" by simp
  have s: "re_search_demo (ustr ''(Policy)( Number)?'') (ustr ''Policy: 7'') = Inr (Some [Some (ustr ''Policy''), None])"
    by code_simp
  have s': "re_search_demo (regex ?cfg) (ustr ''Policy: 7'') = Inr (Some [Some (ustr ''Policy''), None])"
    using s by simp
  have g: "[Some (ustr ''Policy''), None] \<noteq> []" "last [Some (ustr ''Policy''), None] = None" by simp_all
  note t = unmatched_last_group_raises[of "ustr ''policy''" ?cfg "[(ustr ''policy'', ?cfg)]" re_search_demo
      "ustr ''Policy: 7''" "[Some (ustr ''Policy''), None]" partial_ratio_demo]
  from t[OF m s' g] m s show ?thesis by blast
qed

end
